theory Spec2Isabelle
  imports Main "HOL-Library.Sublist"
begin

section \<open>Go values and the standard-library functions the program calls\<close>

text \<open>
  The repository holds two variants of one program: \<^verbatim>\<open>mp1.go\<close>, which frames records as
  text lines, and a second file which frames them with \<^verbatim>\<open>encoding/gob\<close>. Definitions taken
  from the first keep the source's names; definitions taken from the second carry the
  suffix \<open>_gob\<close>.

  Go's \<^verbatim>\<open>int\<close> is taken as 64 bits wide. It is modelled as \<open>int\<close>, and the wrap-around
  is written out with \<open>wrap64\<close> wherever the code computes with values that can leave
  the range. Strings are byte lists.
\<close>

definition MinInt64 :: int where
  "MinInt64 = - (2 ^ 63)"

definition MaxInt64 :: int where
  "MaxInt64 = 2 ^ 63 - 1"

definition is_int64 :: "int \<Rightarrow> bool" where
  "is_int64 x = (MinInt64 \<le> x \<and> x \<le> MaxInt64)"

definition wrap64 :: "int \<Rightarrow> int" where
  "wrap64 x = (x + 2 ^ 63) mod 2 ^ 64 - 2 ^ 63"

definition newline :: char where
  "newline = CHR 0x0A"

definition space :: char where
  "space = CHR '' ''"

subsection \<open>\<^verbatim>\<open>strings\<close>\<close>

text \<open>\<^verbatim>\<open>strings.Split(s, sep)\<close> for a separator of one byte; the program only splits at \<^verbatim>\<open>" "\<close>.
  The result is never empty: a string without separator gives one field.\<close>

fun Split :: "string \<Rightarrow> char \<Rightarrow> string list" where
  "Split [] sep = [[]]"
| "Split (c # cs) sep =
     (if c = sep then [] # Split cs sep
      else (case Split cs sep of
              [] \<Rightarrow> [[c]]
            | field # fields \<Rightarrow> (c # field) # fields))"

text \<open>\<^verbatim>\<open>strings.Join(elems, sep)\<close>.\<close>

fun Join :: "string list \<Rightarrow> string \<Rightarrow> string" where
  "Join [] sep = []"
| "Join [x] sep = x"
| "Join (x # y # ys) sep = x @ sep @ Join (y # ys) sep"

text \<open>\<^verbatim>\<open>strings.TrimPrefix(s, prefix)\<close>.\<close>

definition TrimPrefix :: "string \<Rightarrow> string \<Rightarrow> string" where
  "TrimPrefix s p = (if take (length p) s = p then drop (length p) s else s)"

subsection \<open>\<^verbatim>\<open>bufio.Scanner\<close> with the default line splitter\<close>

text \<open>
  A token ends at a newline, or at the end of the input when bytes remain; one trailing
  carriage return is dropped from it. The scanner's buffer holds at most
  \<^verbatim>\<open>MaxScanTokenSize\<close> bytes, the newline included; a line that does not fit ends the
  scan with \<^verbatim>\<open>ErrTooLong\<close>. \<open>Scan line rest\<close> returns the tokens and whether the scan
  ended with that error; \<open>line\<close> holds the bytes of the current line read so far.
\<close>

definition MaxScanTokenSize :: int where
  "MaxScanTokenSize = 65536"

definition dropCR :: "string \<Rightarrow> string" where
  "dropCR l = (if l \<noteq> [] \<and> last l = CHR 0x0D then butlast l else l)"

fun Scan :: "string \<Rightarrow> string \<Rightarrow> string list \<times> bool" where
  "Scan line [] =
     (if line = [] then ([], False)
      else if MaxScanTokenSize \<le> int (length line) then ([], True)
      else ([dropCR line], False))"
| "Scan line (c # cs) =
     (if c = newline
      then (if MaxScanTokenSize < int (length line) + 1 then ([], True)
            else (case Scan [] cs of (tokens, tooLong) \<Rightarrow> (dropCR line # tokens, tooLong)))
      else Scan (line @ [c]) cs)"

definition ScanLines :: "string \<Rightarrow> string list \<times> bool" where
  "ScanLines input = Scan [] input"

subsection \<open>\<^verbatim>\<open>strconv\<close>\<close>

datatype NumError = ErrSyntax | ErrRange

definition maxUint64 :: int where
  "maxUint64 = 2 ^ 64 - 1"

text \<open>The digit loop of \<^verbatim>\<open>ParseUint(s, 10, 64)\<close>: it returns at the first byte that is not a
  digit, or at the first digit that takes the value past 64 bits, whichever comes first.\<close>

fun ParseUint_loop :: "int \<Rightarrow> string \<Rightarrow> int \<times> NumError option" where
  "ParseUint_loop n [] = (n, None)"
| "ParseUint_loop n (c # cs) =
     (if \<not> (48 \<le> (of_char c :: int) \<and> (of_char c :: int) \<le> 57) then (0, Some ErrSyntax)
      else if maxUint64 div 10 + 1 \<le> n then (maxUint64, Some ErrRange)
      else (let n' = n * 10;
                n1 = (n' + (of_char c - 48)) mod 2 ^ 64
            in if n1 < n' \<or> maxUint64 < n1 then (maxUint64, Some ErrRange)
               else ParseUint_loop n1 cs))"

definition ParseUint :: "string \<Rightarrow> int \<times> NumError option" where
  "ParseUint s = (if s = [] then (0, Some ErrSyntax) else ParseUint_loop 0 s)"

text \<open>\<^verbatim>\<open>ParseInt(s, 10, 0)\<close>: a syntax error gives 0, a range error gives the nearest bound.\<close>

definition ParseInt :: "string \<Rightarrow> int \<times> NumError option" where
  "ParseInt s0 =
     (if s0 = [] then (0, Some ErrSyntax)
      else
        (let neg = (hd s0 = CHR ''-'');
             s = (if hd s0 = CHR ''+'' \<or> hd s0 = CHR ''-'' then tl s0 else s0);
             un = fst (ParseUint s);
             err = snd (ParseUint s)
         in if err = Some ErrSyntax then (0, Some ErrSyntax)
            else if \<not> neg \<and> 2 ^ 63 \<le> un then (2 ^ 63 - 1, Some ErrRange)
            else if neg \<and> 2 ^ 63 < un then (- (2 ^ 63), Some ErrRange)
            else (if neg then wrap64 (- wrap64 un) else wrap64 un, None)))"

text \<open>The loop of \<^verbatim>\<open>Atoi\<close>'s fast path. \<^verbatim>\<open>ch -= '0'\<close> is a byte subtraction, so a byte below
  \<^verbatim>\<open>'0'\<close> wraps to a value above 9. At most 18 digits are read, so \<open>n\<close> stays in range.\<close>

fun Atoi_loop :: "int \<Rightarrow> string \<Rightarrow> int option" where
  "Atoi_loop n [] = Some n"
| "Atoi_loop n (ch # cs) =
     (let d = ((of_char ch :: int) - 48) mod 256
      in if 9 < d then None else Atoi_loop (n * 10 + d) cs)"

text \<open>\<^verbatim>\<open>strconv.Atoi\<close>: the value and the error. The program often drops the error and uses
  the value.\<close>

definition Atoi :: "string \<Rightarrow> int \<times> NumError option" where
  "Atoi s0 =
     (if 0 < length s0 \<and> length s0 < 19
      then
        (let s = (if hd s0 = CHR ''-'' \<or> hd s0 = CHR ''+'' then tl s0 else s0)
         in if s = [] then (0, Some ErrSyntax)
            else (case Atoi_loop 0 s of
                    None \<Rightarrow> (0, Some ErrSyntax)
                  | Some n \<Rightarrow> (if hd s0 = CHR ''-'' then - n else n, None)))
      else ParseInt s0)"

text \<open>\<^verbatim>\<open>strconv.Itoa\<close>, which is also how \<^verbatim>\<open>fmt\<close> prints an \<^verbatim>\<open>int\<close> (\<^verbatim>\<open>%d\<close>, \<^verbatim>\<open>Fprintln\<close>).\<close>

function formatBits :: "int \<Rightarrow> string" where
  "formatBits u =
     (if u < 10 then [char_of (48 + u)]
      else formatBits (u div 10) @ [char_of (48 + u mod 10)])"
  by pat_completeness auto
termination
  by (relation "measure nat") auto

declare formatBits.simps [simp del]

definition Itoa :: "int \<Rightarrow> string" where
  "Itoa i = (if i < 0 then CHR ''-'' # formatBits (- i) else formatBits i)"

section \<open>The data model\<close>

record Process =
  ID :: int
  IP :: string
  Port :: string

record Config =
  MinDelay :: int
  MaxDelay :: int
  Processes :: "Process list"

text \<open>The gob variant's record type.\<close>

record UnicastMessage =
  SourceID :: int
  Message :: string

text \<open>
  A connection is known by the process that dialled it, the configuration entry that was
  dialled, and the number of connections the dialler had opened before it. Both ends hold
  the same connection.
\<close>

datatype conn = Conn (dialer: Process) (target: Process) (serial: nat)

text \<open>How a run ends early: a runtime panic, or \<^verbatim>\<open>log.Fatal\<close>.\<close>

datatype panic = IntnArgument | IndexOutOfRange

datatype fatal = OpenFailed | ReadFailed | ErrTooLong | ListenFailed | DialFailed
  | HandshakeFailed NumError

datatype abort = Panic panic | Fatal fatal

text \<open>
  What a process prints, without the time stamp. In \<^verbatim>\<open>mp1.go\<close>:
  \<open>InvalidCommand\<close> is \<^verbatim>\<open>Invalid command. Please enter a command in the format: ...\<close>,
  \<open>NoConnection d\<close> is \<^verbatim>\<open>No connection to process d. Please check the configuration.\<close>.
  In the gob variant: \<open>InvalidCommand\<close> is \<^verbatim>\<open>Invalid command format. Use: ...\<close>,
  \<open>InvalidDestination d\<close> is \<^verbatim>\<open>Invalid destination process ID: d\<close>.
  In both: \<open>SentMessage m d\<close> is \<^verbatim>\<open>Sent message: m to process d\<close> and
  \<open>ReceivedMessage m s\<close> is \<^verbatim>\<open>Received message: m from process s\<close>.
\<close>

datatype printed = InvalidCommand | NoConnection int | InvalidDestination int
  | SentMessage string int | ReceivedMessage string string

text \<open>
  The state of one process. \<open>connections\<close> is the map of \<^verbatim>\<open>startProcess\<close>; \<open>sent\<close> is what
  the process has written on each connection (bytes in \<^verbatim>\<open>mp1.go\<close>, encoded records in the
  gob variant); \<open>pending\<close> holds the sends whose goroutine still sleeps, each with its
  connection, sender id, text and duration in nanoseconds; \<open>console\<close> is what was printed;
  \<open>dials\<close> lists the connections the process opened with \<^verbatim>\<open>net.Dial\<close>; \<open>slept\<close> lists
  the seconds slept between dial attempts.
\<close>

record 'w state =
  connections :: "int \<rightharpoonup> conn"
  sent :: "conn \<Rightarrow> 'w list"
  pending :: "(conn \<times> int \<times> string \<times> int) list"
  console :: "printed list"
  dials :: "conn list"
  slept :: "nat list"

definition initial :: "'w state" where
  "initial = \<lparr>connections = Map.empty, sent = (\<lambda>c. []), pending = [], console = [],
     dials = [], slept = []\<rparr>"

text \<open>The network as a process meets it: whether its listener can bind, and whether the
  \<open>i\<close>-th dial attempt (from 0) to a configuration entry succeeds.\<close>

record network =
  listen_ok :: "Process \<Rightarrow> bool"
  dial_ok :: "Process \<Rightarrow> Process \<Rightarrow> nat \<Rightarrow> bool"

section \<open>\<^verbatim>\<open>ParseConfig\<close> (the same in both variants)\<close>

text \<open>The file as \<^verbatim>\<open>os.Open\<close> and the reader find it: it cannot be opened, or it yields
  some bytes and then ends, either at the end of the file or with a read error.\<close>

datatype config_file = Unopenable | Readable string bool

text \<open>The loop over the process lines. \<^verbatim>\<open>processInfo[1]\<close> and \<^verbatim>\<open>processInfo[2]\<close> panic when
  the line has fewer than three fields; the error of \<^verbatim>\<open>Atoi\<close> is dropped.\<close>

fun parseProcesses :: "string list \<Rightarrow> panic + Process list" where
  "parseProcesses [] = Inr []"
| "parseProcesses (l # ls) =
     (let processInfo = Split l space;
          processID = fst (Atoi (processInfo ! 0))
      in if length processInfo < 3 then Inl IndexOutOfRange
         else (case parseProcesses ls of
                 Inl p \<Rightarrow> Inl p
               | Inr ps \<Rightarrow>
                   Inr (\<lparr>ID = processID, IP = processInfo ! 1, Port = processInfo ! 2\<rparr> # ps)))"

definition ParseConfig :: "config_file \<Rightarrow> abort + Config" where
  "ParseConfig f =
     (case f of
        Unopenable \<Rightarrow> Inl (Fatal OpenFailed)
      | Readable content readError \<Rightarrow>
          (let tokens = fst (ScanLines content);
               tooLong = snd (ScanLines content);
               minMaxDelays = Split (case tokens of [] \<Rightarrow> [] | t # ts \<Rightarrow> t) space
           in if length minMaxDelays < 2 then Inl (Panic IndexOutOfRange)
              else (let minDelay = fst (Atoi (minMaxDelays ! 0));
                        maxDelay = fst (Atoi (minMaxDelays ! 1))
                    in case parseProcesses (tl tokens) of
                         Inl p \<Rightarrow> Inl (Panic p)
                       | Inr ps \<Rightarrow>
                           if tooLong then Inl (Fatal ErrTooLong)
                           else if readError then Inl (Fatal ReadFailed)
                           else Inr \<lparr>MinDelay = minDelay, MaxDelay = maxDelay,
                                     Processes = ps\<rparr>)))"

section \<open>The delay draw\<close>

text \<open>
  \<^verbatim>\<open>rand.Intn(n)\<close> panics when \<open>n \<le> 0\<close>; otherwise it returns the remainder modulo
  \<open>n\<close> of a non-negative sample of the generator. The sample is a parameter of the model,
  \<open>\<bar>v\<bar>\<close> for any integer \<open>v\<close>.
\<close>

definition Intn :: "int \<Rightarrow> int \<Rightarrow> panic + int" where
  "Intn v n = (if n \<le> 0 then Inl IntnArgument else Inr (\<bar>v\<bar> mod n))"

text \<open>\<^verbatim>\<open>minDelay + rand.Intn(maxDelay - minDelay)\<close>, the delay in milliseconds that both
  variants of \<^verbatim>\<open>handleUserInput\<close> draw.\<close>

definition drawDelay :: "int \<Rightarrow> int \<Rightarrow> int \<Rightarrow> panic + int" where
  "drawDelay v minDelay maxDelay =
     (case Intn v (wrap64 (maxDelay - minDelay)) of
        Inl p \<Rightarrow> Inl p
      | Inr r \<Rightarrow> Inr (wrap64 (minDelay + r)))"

text \<open>\<^verbatim>\<open>time.Duration(d) * time.Millisecond\<close>, in nanoseconds.\<close>

definition Millisecond :: "int \<Rightarrow> int" where
  "Millisecond d = wrap64 (d * 1000000)"

section \<open>The line-text variant, \<^verbatim>\<open>mp1.go\<close>\<close>

definition connWrite :: "conn \<Rightarrow> 'w list \<Rightarrow> 'w state \<Rightarrow> 'w state" where
  "connWrite c bytes st = st\<lparr>sent := (sent st)(c := sent st c @ bytes)\<rparr>"

text \<open>\<^verbatim>\<open>fmt.Fprintln(conn, strconv.Itoa(processID)+" "+message)\<close>.\<close>

definition unicast_send :: "conn \<Rightarrow> int \<Rightarrow> string \<Rightarrow> char state \<Rightarrow> char state" where
  "unicast_send c processID message st =
     connWrite c (Itoa processID @ [space] @ message @ [newline]) st"

text \<open>\<^verbatim>\<open>unicast_send_with_delay\<close> starts a goroutine that sleeps and then sends: the send is
  held in \<open>pending\<close> until it is released.\<close>

definition unicast_send_with_delay ::
  "conn \<Rightarrow> int \<Rightarrow> string \<Rightarrow> int \<Rightarrow> 'w state \<Rightarrow> 'w state" where
  "unicast_send_with_delay c processID message delay st =
     st\<lparr>pending := pending st @ [(c, processID, message, delay)]\<rparr>"

text \<open>\<^verbatim>\<open>unicast_receive\<close> on the bytes that arrive on a connection: one printed line per
  scanned line, until the scanner stops.\<close>

definition unicast_receive :: "string \<Rightarrow> printed list" where
  "unicast_receive input =
     map (\<lambda>message.
            (let senderID = Split message space ! 0
             in ReceivedMessage (TrimPrefix message (senderID @ [space])) senderID))
         (fst (ScanLines input))"

text \<open>\<^verbatim>\<open>getOtherID\<close> on the bytes that arrive on an accepted connection.\<close>

definition getOtherID :: "string \<Rightarrow> NumError + int" where
  "getOtherID input =
     (let firstLine = (case fst (ScanLines input) of [] \<Rightarrow> [] | t # ts \<Rightarrow> t)
      in case snd (Atoi firstLine) of
           Some e \<Rightarrow> Inl e
         | None \<Rightarrow> Inr (fst (Atoi firstLine)))"

text \<open>The loop of \<^verbatim>\<open>startProcess\<close> over \<^verbatim>\<open>config.Processes\<close>: one dial, fatal when it
  fails, then the entry in the map and the process id written on the connection.\<close>

fun dialLoop ::
  "(Process \<Rightarrow> nat \<Rightarrow> bool) \<Rightarrow> Process \<Rightarrow> Process list \<Rightarrow> char state
   \<Rightarrow> abort + char state" where
  "dialLoop dial process [] st = Inr st"
| "dialLoop dial process (otherProcess # rest) st =
     (if ID otherProcess < ID process
      then (if \<not> dial otherProcess 0 then Inl (Fatal DialFailed)
            else (let c = Conn process otherProcess (length (dials st));
                      st1 = st\<lparr>connections := (connections st)(ID otherProcess \<mapsto> c),
                               dials := dials st @ [c]\<rparr>
                  in dialLoop dial process rest (connWrite c (Itoa (ID process) @ [newline]) st1)))
      else dialLoop dial process rest st)"

text \<open>\<^verbatim>\<open>startProcess\<close> up to the point where it starts \<^verbatim>\<open>handleUserInput\<close>.\<close>

definition startProcess :: "network \<Rightarrow> Process \<Rightarrow> Config \<Rightarrow> abort + char state" where
  "startProcess nw process config =
     (if \<not> listen_ok nw process then Inl (Fatal ListenFailed)
      else dialLoop (dial_ok nw process) process (Processes config) initial)"

text \<open>One round of the accept loop of \<^verbatim>\<open>startProcess\<close>, for a connection and the bytes its
  dialler has written on it.\<close>

definition accept :: "conn \<Rightarrow> string \<Rightarrow> 'w state \<Rightarrow> abort + 'w state" where
  "accept c input st =
     (case getOtherID input of
        Inl e \<Rightarrow> Inl (Fatal (HandshakeFailed e))
      | Inr otherID \<Rightarrow> Inr (st\<lparr>connections := (connections st)(otherID \<mapsto> c)\<rparr>))"

text \<open>One round of the loop of \<^verbatim>\<open>handleUserInput\<close>, for a console line and a sample of
  the random generator.\<close>

definition handleUserInput ::
  "Process \<Rightarrow> int \<Rightarrow> int \<Rightarrow> string \<Rightarrow> int \<Rightarrow> 'w state \<Rightarrow> abort + 'w state" where
  "handleUserInput process minDelay maxDelay line v st =
     (let command = Split line space
      in if length command < 2 then Inr (st\<lparr>console := console st @ [InvalidCommand]\<rparr>)
         else if command ! 0 = ''send''
         then
           (let destinationID = fst (Atoi (command ! 1));
                message = (if 2 < length command then Join (drop 2 command) [space] else [])
            in case connections st destinationID of
                 None \<Rightarrow> Inr (st\<lparr>console := console st @ [NoConnection destinationID]\<rparr>)
               | Some c \<Rightarrow>
                   (case drawDelay v minDelay maxDelay of
                      Inl p \<Rightarrow> Inl (Panic p)
                    | Inr d \<Rightarrow>
                        Inr ((unicast_send_with_delay c (ID process) message (Millisecond d) st)
                               \<lparr>console := console st @ [SentMessage message destinationID]\<rparr>)))
         else Inr st)"

text \<open>The goroutine of the \<open>k\<close>-th pending send wakes up and calls \<^verbatim>\<open>unicast_send\<close>.\<close>

definition release :: "nat \<Rightarrow> char state \<Rightarrow> char state" where
  "release k st =
     (if k < length (pending st)
      then (case pending st ! k of
              (c, processID, message, delay) \<Rightarrow>
                unicast_send c processID message
                  (st\<lparr>pending := take k (pending st) @ drop (Suc k) (pending st)\<rparr>))
      else st)"

text \<open>What happens to a process after \<^verbatim>\<open>startProcess\<close> has started \<^verbatim>\<open>handleUserInput\<close>:
  a console line is handled, a pending send is released, or a connection is accepted,
  in any order.\<close>

datatype action = Command string int | Release nat | Accept conn string

fun step :: "Process \<Rightarrow> Config \<Rightarrow> action \<Rightarrow> char state \<Rightarrow> abort + char state" where
  "step process config (Command line v) st =
     handleUserInput process (MinDelay config) (MaxDelay config) line v st"
| "step process config (Release k) st = Inr (release k st)"
| "step process config (Accept c input) st = accept c input st"

fun run :: "Process \<Rightarrow> Config \<Rightarrow> action list \<Rightarrow> char state \<Rightarrow> abort + char state" where
  "run process config [] st = Inr st"
| "run process config (a # as) st =
     (case step process config a st of
        Inl e \<Rightarrow> Inl e
      | Inr st' \<Rightarrow> run process config as st')"

section \<open>The gob variant\<close>

text \<open>\<^verbatim>\<open>encoder.Encode(msg)\<close>: the record goes onto the connection.\<close>

definition unicast_send_gob ::
  "conn \<Rightarrow> int \<Rightarrow> string \<Rightarrow> UnicastMessage state \<Rightarrow> UnicastMessage state" where
  "unicast_send_gob c sourceID message st =
     connWrite c [\<lparr>SourceID = sourceID, Message = message\<rparr>] st"

text \<open>The retry loop of \<^verbatim>\<open>startProcess\<close>, from attempt \<open>i\<close>; \<open>ok\<close> tells whether \<^verbatim>\<open>err\<close> is
  \<^verbatim>\<open>nil\<close> on entry. The result is whether \<^verbatim>\<open>err\<close> is \<^verbatim>\<open>nil\<close> when the loop ends, and the
  seconds slept on the way.\<close>

definition retries :: nat where
  "retries = 5"

function dialRetry :: "(nat \<Rightarrow> bool) \<Rightarrow> nat \<Rightarrow> bool \<Rightarrow> bool \<times> nat list" where
  "dialRetry dial i ok =
     (if i < retries
      then (if dial i then (True, [])
            else (case dialRetry dial (Suc i) False of
                    (ok', sleeps) \<Rightarrow> (ok', Suc i # sleeps)))
      else (ok, []))"
  by pat_completeness auto
termination
  by (relation "measure (\<lambda>(dial, i, ok). retries - i)") auto

declare dialRetry.simps [simp del]

fun dialLoop_gob ::
  "(Process \<Rightarrow> nat \<Rightarrow> bool) \<Rightarrow> Process \<Rightarrow> Process list \<Rightarrow> UnicastMessage state
   \<Rightarrow> abort + UnicastMessage state" where
  "dialLoop_gob dial process [] st = Inr st"
| "dialLoop_gob dial process (otherProcess # rest) st =
     (if ID otherProcess \<noteq> ID process
      then (if \<not> fst (dialRetry (dial otherProcess) 0 True) then Inl (Fatal DialFailed)
            else (let c = Conn process otherProcess (length (dials st))
                  in dialLoop_gob dial process rest
                       (st\<lparr>connections := (connections st)(ID otherProcess \<mapsto> c),
                           dials := dials st @ [c],
                           slept := slept st @ snd (dialRetry (dial otherProcess) 0 True)\<rparr>)))
      else dialLoop_gob dial process rest st)"

text \<open>\<^verbatim>\<open>startProcess\<close> of the gob variant up to the point where it starts
  \<^verbatim>\<open>handleUserInput\<close>. The error of \<^verbatim>\<open>net.Listen\<close> is dropped there, and accepted
  connections only get a decoder: they never enter the map.\<close>

definition startProcess_gob ::
  "network \<Rightarrow> Process \<Rightarrow> Config \<Rightarrow> abort + UnicastMessage state" where
  "startProcess_gob nw process config =
     dialLoop_gob (dial_ok nw process) process (Processes config) initial"

definition handleUserInput_gob ::
  "Process \<Rightarrow> int \<Rightarrow> int \<Rightarrow> string \<Rightarrow> int \<Rightarrow> 'w state \<Rightarrow> abort + 'w state" where
  "handleUserInput_gob process minDelay maxDelay line v st =
     (let command = Split line space
      in if command ! 0 = ''send'' \<and> 1 < length command
         then
           (let destinationID = fst (Atoi (command ! 1));
                err = snd (Atoi (command ! 1))
            in if err = None
               then (case connections st destinationID of
                       Some c \<Rightarrow>
                         (let message = Join (drop 2 command) [space]
                          in case drawDelay v minDelay maxDelay of
                               Inl p \<Rightarrow> Inl (Panic p)
                             | Inr d \<Rightarrow>
                                 Inr ((unicast_send_with_delay c (ID process) message
                                         (Millisecond d) st)
                                        \<lparr>console := console st
                                                      @ [SentMessage message destinationID]\<rparr>))
                     | None \<Rightarrow>
                         Inr (st\<lparr>console := console st @ [InvalidDestination destinationID]\<rparr>))
               else Inr (st\<lparr>console := console st @ [InvalidCommand]\<rparr>))
         else Inr (st\<lparr>console := console st @ [InvalidCommand]\<rparr>))"

section \<open>The mesh\<close>

text \<open>A loop over a list that stops at the first abort.\<close>

fun mapE :: "('a \<Rightarrow> abort + 'b) \<Rightarrow> 'a list \<Rightarrow> abort + 'b list" where
  "mapE f [] = Inr []"
| "mapE f (x # xs) =
     (case f x of
        Inl e \<Rightarrow> Inl e
      | Inr y \<Rightarrow> (case mapE f xs of Inl e \<Rightarrow> Inl e | Inr ys \<Rightarrow> Inr (y # ys)))"

fun acceptLoop :: "(conn \<times> string) list \<Rightarrow> 'w state \<Rightarrow> abort + 'w state" where
  "acceptLoop [] st = Inr st"
| "acceptLoop ((c, input) # others) st =
     (case accept c input st of
        Inl e \<Rightarrow> Inl e
      | Inr st' \<Rightarrow> acceptLoop others st')"

text \<open>
  \<^verbatim>\<open>main\<close> starts \<^verbatim>\<open>startProcess\<close> once for every entry of the configuration. The
  goroutines run concurrently; the mesh they build is computed here for the schedule in
  which every process first runs its dial loop and then accepts the connections dialled
  to its entry, in the order of the configuration. \<open>channels\<close> lists every connection
  that was opened; \<open>incoming\<close> lists, for one process, the connections dialled to it with
  the bytes their diallers wrote.
\<close>

definition channels :: "'w state list \<Rightarrow> conn list" where
  "channels sts = concat (map dials sts)"

definition incoming :: "Process \<Rightarrow> char state list \<Rightarrow> (conn \<times> string) list" where
  "incoming process sts =
     concat (map (\<lambda>st. map (\<lambda>c. (c, sent st c)) (filter (\<lambda>c. target c = process) (dials st)))
               sts)"

definition establish :: "network \<Rightarrow> Config \<Rightarrow> abort + char state list" where
  "establish nw config =
     (case mapE (\<lambda>process. startProcess nw process config) (Processes config) of
        Inl e \<Rightarrow> Inl e
      | Inr sts \<Rightarrow>
          mapE (\<lambda>(process, st). acceptLoop (incoming process sts) st)
            (zip (Processes config) sts))"

definition establish_gob :: "network \<Rightarrow> Config \<Rightarrow> abort + UnicastMessage state list" where
  "establish_gob nw config =
     mapE (\<lambda>process. startProcess_gob nw process config) (Processes config)"

section \<open>An example topology\<close>

text \<open>Three processes on one host, with delays between 100 and 200 milliseconds, and a
  network on which every listener binds and every dial succeeds at once.\<close>

definition proc1 :: Process where
  "proc1 = \<lparr>ID = 1, IP = ''127.0.0.1'', Port = ''8001''\<rparr>"

definition proc2 :: Process where
  "proc2 = \<lparr>ID = 2, IP = ''127.0.0.1'', Port = ''8002''\<rparr>"

definition proc3 :: Process where
  "proc3 = \<lparr>ID = 3, IP = ''127.0.0.1'', Port = ''8003''\<rparr>"

definition example_config :: Config where
  "example_config = \<lparr>MinDelay = 100, MaxDelay = 200, Processes = [proc1, proc2, proc3]\<rparr>"

definition all_up :: network where
  "all_up = \<lparr>listen_ok = (\<lambda>p. True), dial_ok = (\<lambda>p q i. True)\<rparr>"

section \<open>Auxiliary notions for the proofs\<close>

text \<open>The connections a process opens when it dials the entries \<open>qs\<close> in turn, the first
  of them as its \<open>n\<close>-th connection; and the line a dialler writes first in \<^verbatim>\<open>mp1.go\<close>.\<close>

fun number :: "Process \<Rightarrow> nat \<Rightarrow> Process list \<Rightarrow> conn list" where
  "number p n [] = []"
| "number p n (q # qs) = Conn p q n # number p (Suc n) qs"

definition handshake :: "Process \<Rightarrow> string" where
  "handshake p = Itoa (ID p) @ [newline]"

text \<open>A connection between two processes, whichever of them dialled.\<close>

definition joins :: "Process \<Rightarrow> Process \<Rightarrow> conn \<Rightarrow> bool" where
  "joins p q c = ((dialer c = p \<and> target c = q) \<or> (dialer c = q \<and> target c = p))"

text \<open>A process line with at least three fields, and the entry \<^verbatim>\<open>ParseConfig\<close> builds from
  such a line.\<close>

definition enoughFields :: "string \<Rightarrow> bool" where
  "enoughFields l = (3 \<le> length (Split l space))"

definition processOf :: "string \<Rightarrow> Process" where
  "processOf l = \<lparr>ID = fst (Atoi (Split l space ! 0)), IP = Split l space ! 1,
                   Port = Split l space ! 2\<rparr>"

definition isDigit :: "char \<Rightarrow> bool" where
  "isDigit c = (48 \<le> (of_char c :: int) \<and> (of_char c :: int) \<le> 57)"

definition digitsValue :: "int \<Rightarrow> string \<Rightarrow> int" where
  "digitsValue acc s = foldl (\<lambda>n c. n * 10 + (of_char c - 48)) acc s"

section \<open>Decimal conversion: \<^verbatim>\<open>Atoi\<close> reads back what \<^verbatim>\<open>Itoa\<close> writes\<close>

lemma of_char_digit: "0 \<le> d \<Longrightarrow> d < 10 \<Longrightarrow> (of_char (char_of (48 + d :: int)) :: int) = 48 + d"
  by simp

lemma isDigit_char_of: "0 \<le> d \<Longrightarrow> d < 10 \<Longrightarrow> isDigit (char_of (48 + d :: int))"
  by (simp add: isDigit_def)

lemma digitsValue_snoc: "digitsValue acc (s @ [c]) = digitsValue acc s * 10 + (of_char c - 48)"
  by (simp add: digitsValue_def)

lemma formatBits_digits: "0 \<le> u \<Longrightarrow> list_all isDigit (formatBits u)"
proof (induction u rule: formatBits.induct)
  case (1 u)
  show ?case
  proof (cases "u < 10")
    case True
    with 1 show ?thesis by (subst formatBits.simps) (simp add: isDigit_char_of)
  next
    case False
    then have "0 \<le> u div 10" by simp
    moreover have "isDigit (char_of (48 + u mod 10))"
      by (rule isDigit_char_of) simp_all
    ultimately show ?thesis using 1 False
      by (subst formatBits.simps) simp
  qed
qed

lemma formatBits_value: "0 \<le> u \<Longrightarrow> digitsValue 0 (formatBits u) = u"
proof (induction u rule: formatBits.induct)
  case (1 u)
  show ?case
  proof (cases "u < 10")
    case True
    with 1 show ?thesis by (subst formatBits.simps) (simp add: digitsValue_def)
  next
    case False
    then have "0 \<le> u div 10" by simp
    with 1 False have "digitsValue 0 (formatBits (u div 10)) = u div 10" by simp
    moreover have "(of_char (char_of (48 + u mod 10)) :: int) = 48 + u mod 10"
      by (rule of_char_digit) simp_all
    ultimately show ?thesis using False
      by (subst formatBits.simps) (simp add: digitsValue_snoc)
  qed
qed

lemma formatBits_nonempty: "formatBits u \<noteq> []"
  by (subst formatBits.simps) simp

lemma Atoi_loop_digits: "list_all isDigit s \<Longrightarrow> Atoi_loop acc s = Some (digitsValue acc s)"
proof (induction s arbitrary: acc)
  case Nil
  show ?case by (simp add: digitsValue_def)
next
  case (Cons c cs)
  then have dc: "isDigit c" and r: "list_all isDigit cs" by simp_all
  from dc have d: "48 \<le> (of_char c :: int)" "(of_char c :: int) \<le> 57"
    by (simp_all add: isDigit_def)
  from d have m: "((of_char c :: int) - 48) mod 256 = of_char c - 48" by simp
  have "Atoi_loop acc (c # cs) = Atoi_loop (acc * 10 + (of_char c - 48)) cs"
    using d by (simp add: m Let_def)
  also have "\<dots> = Some (digitsValue (acc * 10 + (of_char c - 48)) cs)"
    by (rule Cons.IH [OF r])
  finally show ?case by (simp add: digitsValue_def)
qed

lemma digitsValue_mono: "list_all isDigit s \<Longrightarrow> 0 \<le> acc \<Longrightarrow> acc \<le> digitsValue acc s"
proof (induction s arbitrary: acc)
  case Nil
  show ?case by (simp add: digitsValue_def)
next
  case (Cons c cs)
  then have dc: "isDigit c" and r: "list_all isDigit cs" by simp_all
  from dc have d: "48 \<le> (of_char c :: int)" by (simp add: isDigit_def)
  have "acc \<le> acc * 10 + (of_char c - 48)" using d Cons.prems(2) by simp
  also have "\<dots> \<le> digitsValue (acc * 10 + (of_char c - 48)) cs"
    using d Cons.prems(2) by (intro Cons.IH [OF r]) simp
  finally show ?case by (simp add: digitsValue_def)
qed

lemma ParseUint_loop_digits:
  "list_all isDigit s \<Longrightarrow> 0 \<le> acc \<Longrightarrow> digitsValue acc s < 2 ^ 64 \<Longrightarrow>
   ParseUint_loop acc s = (digitsValue acc s, None)"
proof (induction s arbitrary: acc)
  case Nil
  show ?case by (simp add: digitsValue_def)
next
  case (Cons c cs)
  let ?n1 = "acc * 10 + (of_char c - 48)"
  from Cons.prems(1) have dc: "isDigit c" and r: "list_all isDigit cs" by simp_all
  from dc have d: "48 \<le> (of_char c :: int)" "(of_char c :: int) \<le> 57"
    by (simp_all add: isDigit_def)
  have v: "digitsValue acc (c # cs) = digitsValue ?n1 cs" by (simp add: digitsValue_def)
  have n1_nonneg: "0 \<le> ?n1" using d Cons.prems(2) by simp
  have "?n1 \<le> digitsValue ?n1 cs" by (rule digitsValue_mono [OF r n1_nonneg])
  with Cons.prems(3) v have n1_small: "?n1 < 2 ^ 64" by simp
  then have m: "?n1 mod 2 ^ 64 = ?n1" using n1_nonneg by simp
  have cut: "\<not> maxUint64 div 10 + 1 \<le> acc" using n1_small d by (simp add: maxUint64_def)
  have ok: "\<not> (?n1 < acc * 10 \<or> maxUint64 < ?n1)"
    using d n1_small by (simp add: maxUint64_def)
  have "ParseUint_loop acc (c # cs) = ParseUint_loop ?n1 cs"
    unfolding ParseUint_loop.simps Let_def m using d cut ok by simp
  also have "\<dots> = (digitsValue ?n1 cs, None)"
    using Cons.prems(3) v by (intro Cons.IH [OF r n1_nonneg]) simp
  finally show ?case using v by simp
qed

lemma hd_formatBits_not_sign:
  "0 \<le> u \<Longrightarrow> hd (formatBits u) \<noteq> CHR ''-'' \<and> hd (formatBits u) \<noteq> CHR ''+''"
proof -
  assume "0 \<le> u"
  then have "list_all isDigit (formatBits u)" by (rule formatBits_digits)
  then have "isDigit (hd (formatBits u))"
    using formatBits_nonempty [of u] by (cases "formatBits u") simp_all
  then show ?thesis by (auto simp: isDigit_def)
qed

lemma Atoi_Itoa: "is_int64 i \<Longrightarrow> Atoi (Itoa i) = (i, None)"
proof (cases "i < 0")
  case False
  assume r: "is_int64 i"
  from False have nn: "0 \<le> i" by simp
  note dg = formatBits_digits [OF nn] and vl = formatBits_value [OF nn]
    and hd = hd_formatBits_not_sign [OF nn] and ne = formatBits_nonempty [of i]
  have small: "i < 2 ^ 63" using r by (simp add: is_int64_def MaxInt64_def)
  have pu: "ParseUint (formatBits i) = (i, None)"
    using ParseUint_loop_digits [OF dg, of 0] vl small ne by (simp add: ParseUint_def)
  have w: "wrap64 i = i" using nn small by (simp add: wrap64_def)
  have slow: "ParseInt (formatBits i) = (i, None)"
    using hd ne pu small w by (simp add: ParseInt_def Let_def)
  have fast: "Atoi_loop 0 (formatBits i) = Some i"
    using Atoi_loop_digits [OF dg, of 0] vl by simp
  show ?thesis using False hd ne slow fast by (simp add: Atoi_def Itoa_def Let_def)
next
  case True
  assume r: "is_int64 i"
  from True have nn: "0 \<le> - i" by simp
  note dg = formatBits_digits [OF nn] and vl = formatBits_value [OF nn]
    and ne = formatBits_nonempty [of "- i"]
  have small: "- i \<le> 2 ^ 63" using r by (simp add: is_int64_def MinInt64_def)
  have pu: "ParseUint (formatBits (- i)) = (- i, None)"
    using ParseUint_loop_digits [OF dg, of 0] vl small ne by (simp add: ParseUint_def)
  have w: "wrap64 (- wrap64 (- i)) = i"
  proof (cases "- i = 2 ^ 63")
    case True
    then have "i = - (2 ^ 63)" by simp
    then show ?thesis by (simp add: wrap64_def)
  next
    case False
    with small have "- i < 2 ^ 63" by simp
    then have "wrap64 (- i) = - i" using nn by (simp add: wrap64_def)
    moreover have "wrap64 i = i" using True small by (simp add: wrap64_def)
    ultimately show ?thesis by simp
  qed
  have slow: "ParseInt (CHR ''-'' # formatBits (- i)) = (i, None)"
    using pu small w by (simp add: ParseInt_def Let_def)
  have fast: "Atoi_loop 0 (formatBits (- i)) = Some (- i)"
    using Atoi_loop_digits [OF dg, of 0] vl by simp
  show ?thesis using True ne slow fast by (simp add: Atoi_def Itoa_def Let_def)
qed

section \<open>The delay draw stays within its bounds\<close>

lemma wrap64_id: "is_int64 x \<Longrightarrow> wrap64 x = x"
  by (simp add: is_int64_def MinInt64_def MaxInt64_def wrap64_def)

lemma drawDelay_in_range:
  assumes "is_int64 minDelay" "is_int64 maxDelay" "minDelay < maxDelay"
    and "drawDelay v minDelay maxDelay = Inr d"
  shows "minDelay \<le> d \<and> d < maxDelay"
proof -
  let ?n = "wrap64 (maxDelay - minDelay)"
  from assms(4) have pos: "0 < ?n" and d: "d = wrap64 (minDelay + \<bar>v\<bar> mod ?n)"
    by (auto simp: drawDelay_def Intn_def split: if_splits)
  have span: "0 < maxDelay - minDelay" "maxDelay - minDelay < 2 ^ 64"
    using assms(1-3) by (simp_all add: is_int64_def MinInt64_def MaxInt64_def)
  have n: "?n = maxDelay - minDelay"
  proof (cases "maxDelay - minDelay < 2 ^ 63")
    case True
    with span show ?thesis by (simp add: wrap64_def)
  next
    case False
    then have "(maxDelay - minDelay + 2 ^ 63) mod 2 ^ 64 = maxDelay - minDelay + 2 ^ 63 - 2 ^ 64"
      using span by (simp add: mod_pos_geq)
    then have "?n < 0" using span by (simp add: wrap64_def)
    with pos show ?thesis by simp
  qed
  have r: "0 \<le> \<bar>v\<bar> mod ?n" "\<bar>v\<bar> mod ?n < maxDelay - minDelay"
    using pos n by simp_all
  then have "is_int64 (minDelay + \<bar>v\<bar> mod ?n)"
    using assms(1,2) by (simp add: is_int64_def)
  then have "d = minDelay + \<bar>v\<bar> mod ?n" using d by (simp add: wrap64_id)
  with r show ?thesis by simp
qed

lemma drawDelay_returns:
  assumes "is_int64 minDelay" "is_int64 maxDelay" "minDelay < maxDelay" "0 \<le> minDelay"
  shows "\<exists>d. drawDelay v minDelay maxDelay = Inr d"
proof -
  have "is_int64 (maxDelay - minDelay)"
    using assms by (simp add: is_int64_def MinInt64_def MaxInt64_def)
  then have "wrap64 (maxDelay - minDelay) = maxDelay - minDelay" by (rule wrap64_id)
  then show ?thesis using assms(3) by (simp add: drawDelay_def Intn_def)
qed

text \<open>
  C4. Under the precondition \<open>minDelay < maxDelay\<close>, every delay that the draw
  \<^verbatim>\<open>minDelay + rand.Intn(maxDelay - minDelay)\<close> returns satisfies
  \<open>minDelay \<le> d < maxDelay\<close>, whatever the random sample; and with a non-negative
  \<open>minDelay\<close>, as the topology requires, the draw does return a delay.
\<close>

theorem delay_draw_within_bounds:
  assumes "is_int64 minDelay" "is_int64 maxDelay" "minDelay < maxDelay"
  shows "(0 \<le> minDelay \<longrightarrow> (\<exists>d. drawDelay v minDelay maxDelay = Inr d)) \<and>
         (\<forall>d. drawDelay v minDelay maxDelay = Inr d \<longrightarrow> minDelay \<le> d \<and> d < maxDelay)"
  using assms drawDelay_in_range drawDelay_returns by blast

theorem delay_draw_within_bounds_witness:
  "is_int64 100 \<and> is_int64 200 \<and> (100::int) < 200 \<and> (0::int) \<le> 100 \<and>
   drawDelay 1234 100 200 = Inr 134 \<and>
   (\<exists>d. drawDelay 1234 100 200 = Inr d \<and> 100 \<le> d \<and> d < 200)"
proof -
  have h: "is_int64 100" "is_int64 200" "(100::int) < 200"
    by (simp_all add: is_int64_def MinInt64_def MaxInt64_def)
  have e: "drawDelay 1234 100 200 = Inr 134"
    by (simp add: drawDelay_def Intn_def wrap64_def)
  from delay_draw_within_bounds [OF h, of 1234] e
  have "(100::int) \<le> 134 \<and> (134::int) < 200" by blast
  with h e show ?thesis by simp
qed

section \<open>Evaluations used below\<close>

lemma Split_send_9_hi: "Split ''send 9 hi'' space = [''send'', ''9'', ''hi'']"
  by (simp add: space_def)

lemma Atoi_9: "Atoi ''9'' = (9, None)"
  by code_simp



lemma Atoi_x: "Atoi ''x'' = (0, Some ErrSyntax)"
  by code_simp


lemma Atoi_abc: "Atoi ''abc'' = (0, Some ErrSyntax)"
  by code_simp

lemma Atoi_of_def: "Atoi ''def'' = (0, Some ErrSyntax)"
  by code_simp

lemma Atoi_100: "Atoi ''100'' = (100, None)"
  by code_simp

lemma Atoi_1: "Atoi ''1'' = (1, None)"
  by code_simp

lemma Atoi_2: "Atoi ''2'' = (2, None)"
  by code_simp

lemma ScanLines_malformed:
  "ScanLines ''abc def\<newline>x 127.0.0.1 8001'' = ([''abc def'', ''x 127.0.0.1 8001''], False)"
  by (simp add: ScanLines_def newline_def MaxScanTokenSize_def dropCR_def)

lemma ScanLines_short:
  "ScanLines ''100\<newline>1 127.0.0.1'' = ([''100'', ''1 127.0.0.1''], False)"
  by (simp add: ScanLines_def newline_def MaxScanTokenSize_def dropCR_def)

lemma ScanLines_equal_delays:
  "ScanLines ''100 100\<newline>1 127.0.0.1 8001\<newline>2 127.0.0.1 8002''
     = ([''100 100'', ''1 127.0.0.1 8001'', ''2 127.0.0.1 8002''], False)"
  by (simp add: ScanLines_def newline_def MaxScanTokenSize_def dropCR_def)

lemma Itoa_2: "Itoa 2 = ''2''"
  by code_simp

lemma Atoi_3: "Atoi ''3'' = (3, None)"
  by code_simp

lemma Itoa_3: "Itoa 3 = ''3''"
  by code_simp

lemmas example_defs = example_config_def all_up_def proc1_def proc2_def proc3_def
  startProcess_def startProcess_gob_def initial_def connWrite_def Let_def

section \<open>What \<^verbatim>\<open>Atoi\<close> returns with an error\<close>



section \<open>Console commands\<close>

text \<open>
  C7. A \<^verbatim>\<open>send\<close> command whose destination id has no entry in the local map changes
  nothing but the console, which gets exactly one error line: no send is scheduled,
  nothing is written on any connection, and the map stays as it is. This holds in
  \<^verbatim>\<open>mp1.go\<close>, and in the gob variant for a destination that parses as an integer.
\<close>

theorem send_to_unknown_destination:
  assumes "command = Split line space" "2 \<le> length command" "command ! 0 = ''send''"
    and "d = fst (Atoi (command ! 1))" "connections st d = None"
  shows "handleUserInput process minDelay maxDelay line v st
           = Inr (st\<lparr>console := console st @ [NoConnection d]\<rparr>) \<and>
         (snd (Atoi (command ! 1)) = None \<longrightarrow>
            handleUserInput_gob process minDelay maxDelay line v st
              = Inr (st\<lparr>console := console st @ [InvalidDestination d]\<rparr>))"
  using assms by (simp add: handleUserInput_def handleUserInput_gob_def Let_def)

theorem send_to_unknown_destination_witness:
  "handleUserInput proc1 100 200 ''send 9 hi'' 5 (initial :: char state)
     = Inr (initial\<lparr>console := [NoConnection 9]\<rparr>) \<and>
   handleUserInput_gob proc1 100 200 ''send 9 hi'' 5 (initial :: char state)
     = Inr (initial\<lparr>console := [InvalidDestination 9]\<rparr>)"
proof -
  have c: "connections (initial :: char state) 9 = None" by (simp add: initial_def)
  have k: "console (initial :: char state) = []" by (simp add: initial_def)
  have a: "(9::int) = fst (Atoi ([''send'', ''9'', ''hi''] ! 1))" by (simp add: Atoi_9)
  have s: "[''send'', ''9'', ''hi''] = Split ''send 9 hi'' space"
    by (rule Split_send_9_hi [symmetric])
  have l: "2 \<le> length [''send'', ''9'', ''hi'']" by simp
  have h: "[''send'', ''9'', ''hi''] ! 0 = ''send''" by simp
  have n: "snd (Atoi ([''send'', ''9'', ''hi''] ! 1)) = None" by (simp add: Atoi_9)
  from send_to_unknown_destination [OF s l h a c, of proc1 100 200 5] n
  show ?thesis by (simp add: k)
qed




section \<open>Loading the configuration\<close>

lemma parseProcesses_enough:
  "list_all enoughFields ls \<Longrightarrow> parseProcesses ls = Inr (map processOf ls)"
  by (induction ls) (simp_all add: enoughFields_def processOf_def Let_def)

lemma parseProcesses_short:
  "\<not> list_all enoughFields ls \<Longrightarrow> parseProcesses ls = Inl IndexOutOfRange"
  by (induction ls) (auto simp: enoughFields_def Let_def split: sum.splits)

lemma Scan_unterminated:
  "newline \<notin> set l \<Longrightarrow> acc @ l \<noteq> [] \<Longrightarrow>
   Scan acc l = (if MaxScanTokenSize \<le> int (length (acc @ l)) then ([], True)
                 else ([dropCR (acc @ l)], False))"
proof (induction l arbitrary: acc)
  case Nil
  then show ?case by simp
next
  case (Cons c l)
  then have "c \<noteq> newline" "newline \<notin> set l" "(acc @ [c]) @ l \<noteq> []" by auto
  with Cons.IH [of "acc @ [c]"] show ?case by simp
qed

lemma ScanLines_then_too_long:
  assumes "newline \<notin> set l" "MaxScanTokenSize \<le> int (length l)"
  shows "ScanLines (''100 200\<newline>'' @ l) = ([''100 200''], True)"
proof -
  from assms(2) have "l \<noteq> []" by (auto simp: MaxScanTokenSize_def)
  then have "Scan [] l = ([], True)"
    using Scan_unterminated [of l "[]"] assms by simp
  then show ?thesis
    by (simp add: ScanLines_def newline_def MaxScanTokenSize_def dropCR_def)
qed

lemma ScanLines_delays_only: "ScanLines ''100 200'' = ([''100 200''], False)"
  by (simp add: ScanLines_def newline_def MaxScanTokenSize_def dropCR_def)

text \<open>
  C9 (amended). \<^verbatim>\<open>ParseConfig\<close> returns an error, which \<^verbatim>\<open>main\<close> treats as fatal, when
  the file cannot be opened, and when every scanned line has enough fields but the scan
  ended with a line too long for the scanner or with a read error. A delay line with
  fewer than two fields, or a process line with fewer than three, stops the program with
  an index-out-of-range panic before the scanner's error is looked at; the delay line
  counts as having too few fields also when it is missing, as in a file that is empty,
  fails at the first read, or starts with a line that is too long. A delay or process id
  that is not an integer is not reported: lines with enough fields, read without error,
  always give a configuration, with every number taken as \<^verbatim>\<open>Atoi\<close> returned it (0 after
  a syntax error).
\<close>

theorem ParseConfig_outcomes:
  assumes "tokens = fst (ScanLines content)"
    and "minMaxDelays = Split (case tokens of [] \<Rightarrow> [] | t # ts \<Rightarrow> t) space"
  shows "ParseConfig Unopenable = Inl (Fatal OpenFailed) \<and>
         (length minMaxDelays < 2 \<or> \<not> list_all enoughFields (tl tokens) \<longrightarrow>
            ParseConfig (Readable content readError) = Inl (Panic IndexOutOfRange)) \<and>
         (2 \<le> length minMaxDelays \<and> list_all enoughFields (tl tokens) \<longrightarrow>
            ParseConfig (Readable content readError) =
              (if snd (ScanLines content) then Inl (Fatal ErrTooLong)
               else if readError then Inl (Fatal ReadFailed)
               else Inr \<lparr>MinDelay = fst (Atoi (minMaxDelays ! 0)),
                         MaxDelay = fst (Atoi (minMaxDelays ! 1)),
                         Processes = map processOf (tl tokens)\<rparr>))"
proof (intro conjI)
  show "ParseConfig Unopenable = Inl (Fatal OpenFailed)" by (simp add: ParseConfig_def)
  show "length minMaxDelays < 2 \<or> \<not> list_all enoughFields (tl tokens) \<longrightarrow>
           ParseConfig (Readable content readError) = Inl (Panic IndexOutOfRange)"
    using assms by (auto simp: ParseConfig_def Let_def parseProcesses_short)
  show "2 \<le> length minMaxDelays \<and> list_all enoughFields (tl tokens) \<longrightarrow>
            ParseConfig (Readable content readError) =
              (if snd (ScanLines content) then Inl (Fatal ErrTooLong)
               else if readError then Inl (Fatal ReadFailed)
               else Inr \<lparr>MinDelay = fst (Atoi (minMaxDelays ! 0)),
                         MaxDelay = fst (Atoi (minMaxDelays ! 1)),
                         Processes = map processOf (tl tokens)\<rparr>)"
    using assms by (auto simp: ParseConfig_def Let_def parseProcesses_enough)
qed

theorem ParseConfig_outcomes_witness:
  "ParseConfig (Readable ''100\<newline>1 127.0.0.1'' False) = Inl (Panic IndexOutOfRange) \<and>
   ParseConfig (Readable [] True) = Inl (Panic IndexOutOfRange) \<and>
   ParseConfig (Readable (replicate 65536 (CHR ''a'')) False) = Inl (Panic IndexOutOfRange) \<and>
   ParseConfig (Readable (''100 200\<newline>'' @ replicate 65536 (CHR ''a'')) False)
     = Inl (Fatal ErrTooLong) \<and>
   ParseConfig (Readable ''100 200'' True) = Inl (Fatal ReadFailed) \<and>
   ParseConfig (Readable ''abc def\<newline>x 127.0.0.1 8001'' False) =
     Inr \<lparr>MinDelay = 0, MaxDelay = 0,
          Processes = [\<lparr>ID = 0, IP = ''127.0.0.1'', Port = ''8001''\<rparr>]\<rparr>"
proof -
  have t1: "[''100'', ''1 127.0.0.1''] = fst (ScanLines ''100\<newline>1 127.0.0.1'')"
    by (simp add: ScanLines_short)
  have m1: "[''100''] = Split (case [''100'', ''1 127.0.0.1''] of [] \<Rightarrow> [] | t # ts \<Rightarrow> t) space"
    by (simp add: space_def)
  from ParseConfig_outcomes [OF t1 m1, of False]
  have one: "ParseConfig (Readable ''100\<newline>1 127.0.0.1'' False) = Inl (Panic IndexOutOfRange)"
    by simp
  have t2: "[] = fst (ScanLines [])" by (simp add: ScanLines_def)
  have m2: "[[]] = Split (case [] :: string list of [] \<Rightarrow> [] | t # ts \<Rightarrow> t) space" by simp
  from ParseConfig_outcomes [OF t2 m2, of True]
  have two: "ParseConfig (Readable [] True) = Inl (Panic IndexOutOfRange)" by simp
  have s3: "ScanLines (replicate 65536 (CHR ''a'')) = ([], True)"
    using Scan_unterminated [of "replicate 65536 (CHR ''a'')" "[]"]
    by (simp add: ScanLines_def MaxScanTokenSize_def newline_def)
  have t3: "[] = fst (ScanLines (replicate 65536 (CHR ''a'')))" by (simp add: s3)
  from ParseConfig_outcomes [OF t3 m2, of False]
  have three: "ParseConfig (Readable (replicate 65536 (CHR ''a'')) False)
      = Inl (Panic IndexOutOfRange)" by simp
  have s4: "ScanLines (''100 200\<newline>'' @ replicate 65536 (CHR ''a'')) = ([''100 200''], True)"
    by (rule ScanLines_then_too_long) (simp_all add: newline_def MaxScanTokenSize_def)
  have t4: "[''100 200''] = fst (ScanLines (''100 200\<newline>'' @ replicate 65536 (CHR ''a'')))"
    by (simp only: s4 fst_conv)
  have m4: "[''100'', ''200''] = Split (case [''100 200''] of [] \<Rightarrow> [] | t # ts \<Rightarrow> t) space"
    by (simp add: space_def)
  have g4: "2 \<le> length [''100'', ''200''] \<and> list_all enoughFields (tl [''100 200''])" by simp
  from ParseConfig_outcomes [OF t4 m4, of False] g4
  have four: "ParseConfig (Readable (''100 200\<newline>'' @ replicate 65536 (CHR ''a'')) False)
      = Inl (Fatal ErrTooLong)"
    by (simp only: s4 snd_conv if_True)
  have t5: "[''100 200''] = fst (ScanLines ''100 200'')" by (simp add: ScanLines_delays_only)
  from ParseConfig_outcomes [OF t5 m4, of True] g4
  have five: "ParseConfig (Readable ''100 200'' True) = Inl (Fatal ReadFailed)"
    by (simp add: ScanLines_delays_only)
  have t6: "[''abc def'', ''x 127.0.0.1 8001''] = fst (ScanLines ''abc def\<newline>x 127.0.0.1 8001'')"
    by (simp add: ScanLines_malformed)
  have m6: "[''abc'', ''def''] =
      Split (case [''abc def'', ''x 127.0.0.1 8001''] of [] \<Rightarrow> [] | t # ts \<Rightarrow> t) space"
    by (simp add: space_def)
  have f6: "list_all enoughFields (tl [''abc def'', ''x 127.0.0.1 8001''])"
    by (simp add: enoughFields_def space_def)
  have p6: "processOf ''x 127.0.0.1 8001'' = \<lparr>ID = 0, IP = ''127.0.0.1'', Port = ''8001''\<rparr>"
    by (simp add: processOf_def space_def Atoi_x)
  from ParseConfig_outcomes [OF t6 m6, of False] f6
  have six: "ParseConfig (Readable ''abc def\<newline>x 127.0.0.1 8001'' False) =
     Inr \<lparr>MinDelay = 0, MaxDelay = 0,
          Processes = [\<lparr>ID = 0, IP = ''127.0.0.1'', Port = ''8001''\<rparr>]\<rparr>"
    by (simp add: ScanLines_malformed Atoi_abc Atoi_of_def p6)
  from one two three four five six show ?thesis by simp
qed

text \<open>The claim as stated fails for a delay line and a process id that are not numbers:
  \<^verbatim>\<open>ParseConfig\<close> returns a configuration with delays 0 and 0 and a process 0.\<close>

theorem malformed_config_accepted_counterexample:
  "snd (Atoi ''abc'') = Some ErrSyntax \<and> snd (Atoi ''def'') = Some ErrSyntax \<and>
   snd (Atoi ''x'') = Some ErrSyntax \<and>
   ParseConfig (Readable ''abc def\<newline>x 127.0.0.1 8001'' False) =
     Inr \<lparr>MinDelay = 0, MaxDelay = 0,
          Processes = [\<lparr>ID = 0, IP = ''127.0.0.1'', Port = ''8001''\<rparr>]\<rparr>"
  by (simp add: ParseConfig_def ScanLines_malformed Let_def space_def Atoi_abc Atoi_of_def Atoi_x)

section \<open>Equal delay bounds\<close>

text \<open>
  C5. With \<open>minDelay = maxDelay\<close> the configuration is accepted as it is, and a send to a
  known destination then panics in \<^verbatim>\<open>rand.Intn(0)\<close>, in both variants: the code neither
  rejects the configuration nor gives the delay a fixed value.
\<close>

theorem equal_delays_panic_on_send:
  "ParseConfig (Readable ''100 100\<newline>1 127.0.0.1 8001\<newline>2 127.0.0.1 8002'' False) =
     Inr \<lparr>MinDelay = 100, MaxDelay = 100, Processes = [proc1, proc2]\<rparr> \<and>
   handleUserInput proc2 100 100 ''send 1 hi'' v
       ((initial :: char state)\<lparr>connections := [1 \<mapsto> Conn proc2 proc1 0]\<rparr>)
     = Inl (Panic IntnArgument) \<and>
   handleUserInput_gob proc2 100 100 ''send 1 hi'' v
       ((initial :: UnicastMessage state)\<lparr>connections := [1 \<mapsto> Conn proc2 proc1 0]\<rparr>)
     = Inl (Panic IntnArgument)"
  by (simp add: ParseConfig_def ScanLines_equal_delays Let_def space_def Atoi_100 Atoi_1 Atoi_2
      proc1_def proc2_def handleUserInput_def handleUserInput_gob_def drawDelay_def Intn_def
      wrap64_def)

section \<open>The line framing\<close>

lemma Scan_one_line:
  "newline \<notin> set l \<Longrightarrow> int (length (acc @ l)) + 1 \<le> MaxScanTokenSize \<Longrightarrow>
   Scan acc (l @ [newline]) = ([dropCR (acc @ l)], False)"
proof (induction l arbitrary: acc)
  case Nil
  then show ?case by simp
next
  case (Cons c l)
  from Cons.prems have "c \<noteq> newline" "newline \<notin> set l"
    and "int (length ((acc @ [c]) @ l)) + 1 \<le> MaxScanTokenSize"
    by auto
  with Cons.IH [of "acc @ [c]"] show ?case by simp
qed

lemma Split_nonempty: "Split s sep \<noteq> []"
  by (induction s) (simp_all split: list.splits)

lemma Split_first_field: "sep \<notin> set a \<Longrightarrow> Split (a @ sep # b) sep = a # Split b sep"
  by (induction a) auto

lemma isDigit_not_space: "isDigit c \<Longrightarrow> c \<noteq> space \<and> c \<noteq> newline"
  by (auto simp: isDigit_def space_def newline_def)

lemma formatBits_plain: "0 \<le> u \<Longrightarrow> space \<notin> set (formatBits u) \<and> newline \<notin> set (formatBits u)"
  using formatBits_digits [of u] isDigit_not_space by (auto simp: list_all_iff)

lemma Itoa_plain: "space \<notin> set (Itoa i) \<and> newline \<notin> set (Itoa i)"
proof (cases "i < 0")
  case True
  then have "0 \<le> - i" by simp
  from formatBits_plain [OF this] True show ?thesis
    by (simp add: Itoa_def space_def newline_def)
next
  case False
  then have "0 \<le> i" by simp
  from formatBits_plain [OF this] False show ?thesis by (simp add: Itoa_def)
qed

lemma TrimPrefix_append: "TrimPrefix (p @ rest) p = rest"
  by (simp add: TrimPrefix_def)

lemma dropCR_keep: "l \<noteq> [] \<Longrightarrow> last l \<noteq> CHR 0x0D \<Longrightarrow> dropCR l = l"
  by (simp add: dropCR_def)

lemma receive_one_line:
  assumes "newline \<notin> set text" "text = [] \<or> last text \<noteq> CHR 0x0D"
    and "int (length (Itoa senderID @ [space] @ text)) + 1 \<le> MaxScanTokenSize"
  shows "unicast_receive (Itoa senderID @ [space] @ text @ [newline])
           = [ReceivedMessage text (Itoa senderID)]"
proof -
  let ?l = "Itoa senderID @ [space] @ text"
  have nl: "newline \<notin> set ?l"
    using assms(1) Itoa_plain [of senderID] by (simp add: space_def newline_def)
  have "last ?l \<noteq> CHR 0x0D"
    using assms(2) by (auto simp: space_def)
  then have keep: "dropCR ?l = ?l" by (intro dropCR_keep) simp_all
  have "Scan [] (?l @ [newline]) = ([dropCR ([] @ ?l)], False)"
    using nl assms(3) by (intro Scan_one_line) simp_all
  note scanned = this
  from scanned have scan: "fst (ScanLines (Itoa senderID @ [space] @ text @ [newline])) = [?l]"
    using keep by (simp add: ScanLines_def)
  have "Split (Itoa senderID @ space # text) space = Itoa senderID # Split text space"
    using Itoa_plain [of senderID] by (intro Split_first_field) simp
  then have field0: "Split ?l space ! 0 = Itoa senderID" by simp
  have "TrimPrefix ?l (Itoa senderID @ [space]) = text"
    using TrimPrefix_append [of "Itoa senderID @ [space]" "text"] by simp
  with scan field0 show ?thesis by (simp add: unicast_receive_def Let_def)
qed

lemma Itoa_1: "Itoa 1 = ''1''"
  by code_simp

text \<open>
  C3 (amended). In \<^verbatim>\<open>mp1.go\<close>, what \<^verbatim>\<open>unicast_send\<close> writes for a sender id and a text is read
  back by \<^verbatim>\<open>unicast_receive\<close> as one record with the same text and the decimal form of the
  same id, for every text that holds no newline, does not end in a carriage return, and
  fits the scanner's buffer together with the id; the empty text and texts with spaces
  are among them. \<^verbatim>\<open>Atoi\<close> reads the id back from its decimal form.
\<close>

theorem line_record_round_trip:
  assumes "newline \<notin> set text" "text = [] \<or> last text \<noteq> CHR 0x0D"
    and "int (length (Itoa senderID @ [space] @ text)) + 1 \<le> MaxScanTokenSize"
    and "sent st c = []"
  shows "unicast_receive (sent (unicast_send c senderID text st) c)
           = [ReceivedMessage text (Itoa senderID)] \<and>
         (is_int64 senderID \<longrightarrow> Atoi (Itoa senderID) = (senderID, None))"
  using receive_one_line [OF assms(1-3)] assms(4) Atoi_Itoa
  by (simp add: unicast_send_def connWrite_def)

theorem line_record_round_trip_witness:
  "unicast_receive (sent (unicast_send (Conn proc1 proc2 0) 1 '''' initial) (Conn proc1 proc2 0))
     = [ReceivedMessage '''' ''1''] \<and>
   unicast_receive (sent (unicast_send (Conn proc1 proc2 0) 1 ''a  b c '' initial) (Conn proc1 proc2 0))
     = [ReceivedMessage ''a  b c '' ''1''] \<and>
   Atoi ''1'' = (1, None)"
proof -
  have s: "sent (initial :: char state) (Conn proc1 proc2 0) = []" by (simp add: initial_def)
  have i: "is_int64 1" by (simp add: is_int64_def MinInt64_def MaxInt64_def)
  have n1: "newline \<notin> set ''''" and n2: "newline \<notin> set ''a  b c ''"
    by (simp_all add: newline_def)
  have l1: "'''' = [] \<or> last '''' \<noteq> CHR 0x0D" and l2: "''a  b c '' = [] \<or> last ''a  b c '' \<noteq> CHR 0x0D"
    by simp_all
  have f1: "int (length (Itoa 1 @ [space] @ '''')) + 1 \<le> MaxScanTokenSize"
    and f2: "int (length (Itoa 1 @ [space] @ ''a  b c '')) + 1 \<le> MaxScanTokenSize"
    by (simp_all add: Itoa_1 MaxScanTokenSize_def)
  from line_record_round_trip [OF n1 l1 f1 s] line_record_round_trip [OF n2 l2 f2 s] i
  show ?thesis by (simp add: Itoa_1)
qed

text \<open>The claim as stated fails for a text that ends in a carriage return, which the
  scanner drops, and for a text with a newline, which is read as two records.\<close>

theorem line_record_round_trip_counterexample:
  "unicast_receive (sent (unicast_send (Conn proc1 proc2 0) 1 (''hi'' @ [CHR 0x0D]) initial)
       (Conn proc1 proc2 0))
     = [ReceivedMessage ''hi'' ''1''] \<and>
   unicast_receive (sent (unicast_send (Conn proc1 proc2 0) 1 ''a\<newline>b'' initial)
       (Conn proc1 proc2 0))
     = [ReceivedMessage ''a'' ''1'', ReceivedMessage ''b'' ''b'']"
  by (simp add: unicast_send_def connWrite_def initial_def Itoa_1 unicast_receive_def
      ScanLines_def space_def newline_def MaxScanTokenSize_def dropCR_def TrimPrefix_def Let_def)

section \<open>Dialling\<close>

lemma dialRetry_success:
  "i \<le> k \<Longrightarrow> k < retries \<Longrightarrow> dial k \<Longrightarrow> (\<forall>j. i \<le> j \<and> j < k \<longrightarrow> \<not> dial j) \<Longrightarrow>
   dialRetry dial i ok = (True, [Suc i..<Suc k])"
proof (induction dial i ok rule: dialRetry.induct)
  case (1 dial i ok)
  show ?case
  proof (cases "i = k")
    case True
    with 1 show ?thesis by (subst dialRetry.simps) simp
  next
    case False
    with 1 have lt: "i < k" "i < retries" "\<not> dial i" by auto
    with 1 have "dialRetry dial (Suc i) False = (True, [Suc (Suc i)..<Suc k])" by auto
    with lt show ?thesis
      by (subst dialRetry.simps) (simp add: upt_conv_Cons)
  qed
qed

lemma dialRetry_exhausted:
  "i < retries \<Longrightarrow> (\<forall>j. i \<le> j \<and> j < retries \<longrightarrow> \<not> dial j) \<Longrightarrow>
   dialRetry dial i ok = (False, [Suc i..<Suc retries])"
proof (induction dial i ok rule: dialRetry.induct)
  case (1 dial i ok)
  then have f: "\<not> dial i" by auto
  show ?case
  proof (cases "Suc i < retries")
    case True
    with 1 f have "dialRetry dial (Suc i) False = (False, [Suc (Suc i)..<Suc retries])" by auto
    with 1 f show ?thesis
      by (subst dialRetry.simps) (simp add: upt_conv_Cons)
  next
    case False
    with 1 have e: "Suc i = retries" by simp
    have "dialRetry dial (Suc i) False = (False, [])"
      using e by (subst dialRetry.simps) simp
    with 1 f e show ?thesis
      by (subst dialRetry.simps) (simp add: upt_conv_Cons)
  qed
qed

text \<open>
  C8 (amended). In the gob variant a dial is tried at most five times; after the
  \<open>i\<close>-th failed attempt the process sleeps \<open>i\<close> seconds, also after the fifth, and when
  all five fail the process aborts. In \<^verbatim>\<open>mp1.go\<close> there is no retry: the first failed
  dial aborts the process.
\<close>

theorem dial_retry_policy:
  "retries = 5 \<and>
   (k < retries \<and> dial q k \<and> (\<forall>j<k. \<not> dial q j) \<longrightarrow>
      dialRetry (dial q) 0 True = (True, [1..<Suc k])) \<and>
   ((\<forall>j<retries. \<not> dial q j) \<longrightarrow>
      dialRetry (dial q) 0 True = (False, [1, 2, 3, 4, 5]) \<and>
      (ID q \<noteq> ID p \<longrightarrow> dialLoop_gob dial p (q # rest) st = Inl (Fatal DialFailed))) \<and>
   (ID q < ID p \<and> \<not> dial q 0 \<longrightarrow> dialLoop dial p (q # rest) st' = Inl (Fatal DialFailed))"
proof (intro conjI impI)
  show "retries = 5" by (simp add: retries_def)
next
  assume "k < retries \<and> dial q k \<and> (\<forall>j<k. \<not> dial q j)"
  then show "dialRetry (dial q) 0 True = (True, [1..<Suc k])"
    using dialRetry_success [of 0 k "dial q" True] by simp
next
  assume a: "\<forall>j<retries. \<not> dial q j"
  have "[Suc 0..<Suc retries] = [1, 2, 3, 4, 5]"
    by (simp add: retries_def upt_conv_Cons)
  then show "dialRetry (dial q) 0 True = (False, [1, 2, 3, 4, 5])"
    using dialRetry_exhausted [of 0 "dial q" True] a by (simp add: retries_def)
next
  assume a: "\<forall>j<retries. \<not> dial q j" and "ID q \<noteq> ID p"
  moreover have "dialRetry (dial q) 0 True = (False, [Suc 0..<Suc retries])"
    using dialRetry_exhausted [of 0 "dial q" True] a by (simp add: retries_def)
  ultimately show "dialLoop_gob dial p (q # rest) st = Inl (Fatal DialFailed)" by simp
next
  assume "ID q < ID p \<and> \<not> dial q 0"
  then show "dialLoop dial p (q # rest) st' = Inl (Fatal DialFailed)" by simp
qed

theorem dial_retry_policy_witness:
  "dialRetry (\<lambda>i::nat. i = 3) 0 True = (True, [1, 2, 3]) \<and>
   dialRetry (\<lambda>i::nat. False) 0 True = (False, [1, 2, 3, 4, 5]) \<and>
   dialLoop_gob (\<lambda>(q::Process) (i::nat). False) proc1 [proc2] (initial :: UnicastMessage state) = Inl (Fatal DialFailed) \<and>
   dialLoop (\<lambda>(q::Process) (i::nat). False) proc2 [proc1] (initial :: char state) = Inl (Fatal DialFailed)"
proof -
  have a: "(3::nat) < retries \<and> (\<lambda>(q::Process) (i::nat). i = 3) proc2 3 \<and> (\<forall>j<3. \<not> (\<lambda>(q::Process) (i::nat). i = 3) proc2 j)"
    by (simp add: retries_def)
  have b: "\<forall>j<retries. \<not> (\<lambda>(q::Process) (i::nat). False) proc2 j" by simp
  have c: "ID proc2 \<noteq> ID proc1" by (simp add: proc1_def proc2_def)
  have d: "ID proc1 < ID proc2 \<and> \<not> (\<lambda>(q::Process) (i::nat). False) proc1 0" by (simp add: proc1_def proc2_def)
  have u: "[1..<Suc 3] = [1, 2, 3]" by (simp add: upt_conv_Cons)
  from dial_retry_policy [of 3 "\<lambda>(q::Process) (i::nat). i = 3" proc2] a u
  have one: "dialRetry (\<lambda>i::nat. i = 3) 0 True = (True, [1, 2, 3])" by simp
  from dial_retry_policy [of 0 "\<lambda>(q::Process) (i::nat). False" proc2 proc1 "[]" initial] b c
  have two: "dialRetry (\<lambda>i::nat. False) 0 True = (False, [1, 2, 3, 4, 5]) \<and>
     dialLoop_gob (\<lambda>(q::Process) (i::nat). False) proc1 [proc2] (initial :: UnicastMessage state) = Inl (Fatal DialFailed)" by simp
  from dial_retry_policy [of 0 "\<lambda>(q::Process) (i::nat). False" proc1 proc2 "[]" initial initial] d
  have three: "dialLoop (\<lambda>(q::Process) (i::nat). False) proc2 [proc1] (initial :: char state) = Inl (Fatal DialFailed)" by simp
  from one two three show ?thesis by simp
qed

text \<open>The claim as stated fails in \<^verbatim>\<open>mp1.go\<close> for a peer whose first dial fails and whose
  second would succeed: the process aborts, where the gob variant connects after one
  second.\<close>

theorem no_retry_in_line_variant_counterexample:
  "dialLoop (\<lambda>(q::Process) (i::nat). 0 < i) proc2 [proc1] (initial :: char state) = Inl (Fatal DialFailed) \<and>
   dialRetry ((\<lambda>(q::Process) (i::nat). 0 < i) proc1) 0 True = (True, [1])"
  by (simp add: proc1_def proc2_def dialRetry.simps retries_def)

section \<open>The dial loops\<close>

lemma number_append: "number p n (qs @ [q]) = number p n qs @ [Conn p q (n + length qs)]"
  by (induction qs arbitrary: n) simp_all

lemma target_number: "map target (number p n qs) = qs"
  by (induction qs arbitrary: n) simp_all

lemma dialer_number: "c \<in> set (number p n qs) \<Longrightarrow> dialer c = p"
  by (induction qs arbitrary: n) auto

lemma serial_number: "c \<in> set (number p n qs) \<Longrightarrow> n \<le> serial c \<and> serial c < n + length qs"
  by (induction qs arbitrary: n) fastforce+

lemma distinct_number: "distinct (number p n qs)"
proof (induction qs arbitrary: n)
  case Nil
  show ?case by simp
next
  case (Cons q qs)
  have "Conn p q n \<notin> set (number p (Suc n) qs)"
    using serial_number [of "Conn p q n" p "Suc n" qs] by auto
  with Cons show ?case by simp
qed

lemma length_number: "length (number p n qs) = length qs"
  by (induction qs arbitrary: n) simp_all

text \<open>The dial loop of mp1.go, from any state.\<close>

lemma dialLoop_dials:
  "dialLoop dial p qs st = Inr st' \<Longrightarrow>
   dials st' = dials st @ number p (length (dials st)) (filter (\<lambda>q. ID q < ID p) qs)"
proof (induction qs arbitrary: st)
  case Nil
  then show ?case by simp
next
  case (Cons q qs)
  show ?case
  proof (cases "ID q < ID p")
    case False
    with Cons show ?thesis by simp
  next
    case True
    let ?c = "Conn p q (length (dials st))"
    let ?st1 = "connWrite ?c (Itoa (ID p) @ [newline])
                  (st\<lparr>connections := (connections st)(ID q \<mapsto> ?c), dials := dials st @ [?c]\<rparr>)"
    from Cons.prems True have r: "dialLoop dial p qs ?st1 = Inr st'"
      by (simp add: Let_def split: if_splits)
    have d1: "dials ?st1 = dials st @ [?c]" by (simp add: connWrite_def)
    from Cons.IH [OF r] d1 True show ?thesis by simp
  qed
qed

lemma dialLoop_connections:
  "dialLoop dial p qs st = Inr st' \<Longrightarrow>
   dom (connections st') = dom (connections st) \<union> ID ` {q \<in> set qs. ID q < ID p}"
proof (induction qs arbitrary: st)
  case Nil
  then show ?case by simp
next
  case (Cons q qs)
  show ?case
  proof (cases "ID q < ID p")
    case False
    with Cons show ?thesis by auto
  next
    case True
    let ?c = "Conn p q (length (dials st))"
    let ?st1 = "connWrite ?c (Itoa (ID p) @ [newline])
                  (st\<lparr>connections := (connections st)(ID q \<mapsto> ?c), dials := dials st @ [?c]\<rparr>)"
    from Cons.prems True have r: "dialLoop dial p qs ?st1 = Inr st'"
      by (simp add: Let_def split: if_splits)
    have d1: "dom (connections ?st1) = insert (ID q) (dom (connections st))"
      by (simp add: connWrite_def)
    from Cons.IH [OF r] d1 True show ?thesis by auto
  qed
qed

lemma dialLoop_sent:
  "dialLoop dial p qs st = Inr st' \<Longrightarrow> \<forall>c\<in>set (dials st). serial c < length (dials st) \<Longrightarrow>
   sent st' c =
     (if c \<in> set (number p (length (dials st)) (filter (\<lambda>q. ID q < ID p) qs))
      then sent st c @ handshake p else sent st c)"
proof (induction qs arbitrary: st)
  case Nil
  then show ?case by simp
next
  case (Cons q qs)
  show ?case
  proof (cases "ID q < ID p")
    case False
    with Cons show ?thesis by simp
  next
    case True
    let ?n = "length (dials st)"
    let ?c = "Conn p q ?n"
    let ?st1 = "connWrite ?c (Itoa (ID p) @ [newline])
                  (st\<lparr>connections := (connections st)(ID q \<mapsto> ?c), dials := dials st @ [?c]\<rparr>)"
    let ?rest = "number p (Suc ?n) (filter (\<lambda>q. ID q < ID p) qs)"
    from Cons.prems(1) True have r: "dialLoop dial p qs ?st1 = Inr st'"
      by (simp add: Let_def split: if_splits)
    have d1: "dials ?st1 = dials st @ [?c]" by (simp add: connWrite_def)
    have inv1: "\<forall>c\<in>set (dials ?st1). serial c < length (dials ?st1)"
      using Cons.prems(2) by (auto simp: d1 less_Suc_eq)
    have fresh: "?c \<notin> set ?rest"
      using serial_number [of ?c p "Suc ?n"] by auto
    have s1: "sent ?st1 c = (if c = ?c then sent st c @ handshake p else sent st c)"
      by (simp add: connWrite_def handshake_def)
    from Cons.IH [OF r inv1] d1
    have "sent st' c = (if c \<in> set ?rest then sent ?st1 c @ handshake p else sent ?st1 c)"
      by simp
    with s1 fresh True show ?thesis by auto
  qed
qed

lemma startProcess_dials:
  assumes "startProcess nw p config = Inr st"
  shows "dials st = number p 0 (filter (\<lambda>q. ID q < ID p) (Processes config))"
proof -
  from assms have "dialLoop (dial_ok nw p) p (Processes config) (initial :: char state) = Inr st"
    by (simp add: startProcess_def split: if_splits)
  from dialLoop_dials [OF this] show ?thesis by (simp add: initial_def)
qed

lemma startProcess_connections:
  assumes "startProcess nw p config = Inr st"
  shows "dom (connections st) = ID ` {q \<in> set (Processes config). ID q < ID p}"
proof -
  from assms have "dialLoop (dial_ok nw p) p (Processes config) (initial :: char state) = Inr st"
    by (simp add: startProcess_def split: if_splits)
  from dialLoop_connections [OF this] show ?thesis by (simp add: initial_def)
qed

lemma startProcess_sent:
  assumes "startProcess nw p config = Inr st"
  shows "sent st c = (if c \<in> set (dials st) then handshake p else [])"
proof -
  from assms have d: "dialLoop (dial_ok nw p) p (Processes config) (initial :: char state) = Inr st"
    by (simp add: startProcess_def split: if_splits)
  have "\<forall>c\<in>set (dials (initial :: char state)). serial c < length (dials (initial :: char state))"
    by (simp add: initial_def)
  from dialLoop_sent [OF d this, of c] startProcess_dials [OF assms]
  show ?thesis by (simp add: initial_def)
qed

text \<open>The dial loop of the gob variant.\<close>

lemma dialLoop_gob_dials:
  "dialLoop_gob dial p qs st = Inr st' \<Longrightarrow>
   dials st' = dials st @ number p (length (dials st)) (filter (\<lambda>q. ID q \<noteq> ID p) qs)"
proof (induction qs arbitrary: st)
  case Nil
  then show ?case by simp
next
  case (Cons q qs)
  show ?case
  proof (cases "ID q \<noteq> ID p")
    case False
    with Cons show ?thesis by simp
  next
    case True
    let ?c = "Conn p q (length (dials st))"
    let ?st1 = "st\<lparr>connections := (connections st)(ID q \<mapsto> ?c), dials := dials st @ [?c],
                    slept := slept st @ snd (dialRetry (dial q) 0 True)\<rparr>"
    from Cons.prems True have r: "dialLoop_gob dial p qs ?st1 = Inr st'"
      by (simp add: Let_def split: if_splits)
    from Cons.IH [OF r] True show ?thesis by simp
  qed
qed

lemma dialLoop_gob_connections:
  "dialLoop_gob dial p qs st = Inr st' \<Longrightarrow>
   dom (connections st') = dom (connections st) \<union> ID ` {q \<in> set qs. ID q \<noteq> ID p}"
proof (induction qs arbitrary: st)
  case Nil
  then show ?case by simp
next
  case (Cons q qs)
  show ?case
  proof (cases "ID q \<noteq> ID p")
    case False
    with Cons show ?thesis by auto
  next
    case True
    let ?c = "Conn p q (length (dials st))"
    let ?st1 = "st\<lparr>connections := (connections st)(ID q \<mapsto> ?c), dials := dials st @ [?c],
                    slept := slept st @ snd (dialRetry (dial q) 0 True)\<rparr>"
    from Cons.prems True have r: "dialLoop_gob dial p qs ?st1 = Inr st'"
      by (simp add: Let_def split: if_splits)
    have d1: "dom (connections ?st1) = insert (ID q) (dom (connections st))"
      by simp
    from Cons.IH [OF r] True show ?thesis unfolding d1 by auto
  qed
qed

lemma dialLoop_gob_sent: "dialLoop_gob dial p qs st = Inr st' \<Longrightarrow> sent st' = sent st"
proof (induction qs arbitrary: st)
  case Nil
  then show ?case by simp
next
  case (Cons q qs)
  show ?case
  proof (cases "ID q \<noteq> ID p")
    case False
    with Cons show ?thesis by simp
  next
    case True
    let ?c = "Conn p q (length (dials st))"
    let ?st1 = "st\<lparr>connections := (connections st)(ID q \<mapsto> ?c), dials := dials st @ [?c],
                    slept := slept st @ snd (dialRetry (dial q) 0 True)\<rparr>"
    from Cons.prems True have r: "dialLoop_gob dial p qs ?st1 = Inr st'"
      by (simp add: Let_def split: if_splits)
    from Cons.IH [OF r] show ?thesis by simp
  qed
qed

lemma startProcess_gob_dials:
  assumes "startProcess_gob nw p config = Inr st"
  shows "dials st = number p 0 (filter (\<lambda>q. ID q \<noteq> ID p) (Processes config))"
  using dialLoop_gob_dials [of "dial_ok nw p" p "Processes config" initial st] assms
  by (simp add: startProcess_gob_def initial_def)

lemma startProcess_gob_connections:
  assumes "startProcess_gob nw p config = Inr st"
  shows "dom (connections st) = ID ` {q \<in> set (Processes config). ID q \<noteq> ID p}"
  using dialLoop_gob_connections [of "dial_ok nw p" p "Processes config" initial st] assms
  by (simp add: startProcess_gob_def initial_def)

lemma startProcess_gob_sent:
  assumes "startProcess_gob nw p config = Inr st"
  shows "sent st c = []"
  using dialLoop_gob_sent [of "dial_ok nw p" p "Processes config" initial st] assms
  by (simp add: startProcess_gob_def initial_def)

lemma handleUserInput_sent:
  "handleUserInput p minDelay maxDelay line v st = Inr st' \<Longrightarrow> sent st' = sent st"
  by (auto simp: handleUserInput_def Let_def unicast_send_with_delay_def
      split: if_splits option.splits sum.splits)

lemma release_sent: "prefix (sent st c) (sent (release k st) c)"
  by (auto simp: release_def unicast_send_def connWrite_def split: prod.splits)

lemma accept_sent: "accept c' input st = Inr st' \<Longrightarrow> sent st' = sent st"
  by (auto simp: accept_def split: sum.splits)

lemma step_sent: "step p config a st = Inr st' \<Longrightarrow> prefix (sent st c) (sent st' c)"
proof (cases a)
  case (Command line v)
  assume "step p config a st = Inr st'"
  with Command have "sent st' = sent st" by (auto dest: handleUserInput_sent)
  then show ?thesis by simp
next
  case (Release k)
  assume "step p config a st = Inr st'"
  with Release show ?thesis by (auto simp: release_sent)
next
  case (Accept c' input)
  assume "step p config a st = Inr st'"
  with Accept have "sent st' = sent st" by (auto dest: accept_sent)
  then show ?thesis by simp
qed

lemma run_sent: "run p config acts st = Inr st' \<Longrightarrow> prefix (sent st c) (sent st' c)"
proof (induction acts arbitrary: st)
  case Nil
  then show ?case by simp
next
  case (Cons a acts)
  from Cons.prems obtain st1 where s: "step p config a st = Inr st1"
    and r: "run p config acts st1 = Inr st'"
    by (auto split: sum.splits)
  from step_sent [OF s] Cons.IH [OF r] show ?case
    by (rule prefix_order.trans)
qed

text \<open>
  C1 (amended). In \<^verbatim>\<open>mp1.go\<close> a process dials exactly the entries of the topology whose
  id is lower than its own, in their order: for every pair of processes with different
  ids the higher id initiates the connection, and the lower id only listens and accepts.
  In the gob variant a process dials every entry whose id differs from its own, so each
  process of a pair dials the other.
\<close>

theorem higher_id_dials_lower:
  "(startProcess nw p config = Inr st \<longrightarrow>
      map target (dials st) = filter (\<lambda>q. ID q < ID p) (Processes config) \<and>
      map dialer (dials st) = map (\<lambda>q. p) (dials st)) \<and>
   (startProcess_gob nw p config = Inr st' \<longrightarrow>
      map target (dials st') = filter (\<lambda>q. ID q \<noteq> ID p) (Processes config) \<and>
      map dialer (dials st') = map (\<lambda>q. p) (dials st'))"
proof (intro conjI impI)
  assume a: "startProcess nw p config = Inr st"
  show "map target (dials st) = filter (\<lambda>q. ID q < ID p) (Processes config)"
    by (simp add: startProcess_dials [OF a] target_number)
  show "map dialer (dials st) = map (\<lambda>q. p) (dials st)"
    by (simp add: startProcess_dials [OF a] dialer_number)
next
  assume a: "startProcess_gob nw p config = Inr st'"
  show "map target (dials st') = filter (\<lambda>q. ID q \<noteq> ID p) (Processes config)"
    by (simp add: startProcess_gob_dials [OF a] target_number)
  show "map dialer (dials st') = map (\<lambda>q. p) (dials st')"
    by (simp add: startProcess_gob_dials [OF a] dialer_number)
qed

theorem higher_id_dials_lower_witness:
  "(\<exists>st. startProcess all_up proc3 example_config = Inr st \<and>
         map target (dials st) = [proc1, proc2]) \<and>
   (\<exists>st. startProcess_gob all_up proc2 example_config = Inr st \<and>
         map target (dials st) = [proc1, proc3])"
proof -
  define st where "st = projr (startProcess all_up proc3 example_config)"
  define st' where "st' = projr (startProcess_gob all_up proc2 example_config)"
  have a: "startProcess all_up proc3 example_config = Inr st"
    by (simp add: st_def example_defs)
  have b: "startProcess_gob all_up proc2 example_config = Inr st'"
    by (simp add: st'_def example_defs dialRetry.simps retries_def)
  have f: "filter (\<lambda>q. ID q < ID proc3) (Processes example_config) = [proc1, proc2]"
    by (simp add: example_config_def proc1_def proc2_def proc3_def)
  have g: "filter (\<lambda>q. ID q \<noteq> ID proc2) (Processes example_config) = [proc1, proc3]"
    by (simp add: example_config_def proc1_def proc2_def proc3_def)
  from higher_id_dials_lower [of all_up proc3 example_config st] a f
  have one: "map target (dials st) = [proc1, proc2]" by simp
  from higher_id_dials_lower [of all_up proc2 example_config _ st'] b g
  have two: "map target (dials st') = [proc1, proc3]" by simp
  from a b one two show ?thesis by simp
qed

text \<open>The claim as stated fails in the example topology: process 1, the lowest id, dials
  nobody, and process 2 dials process 1.\<close>

theorem lower_id_does_not_dial_counterexample:
  "map_sum id dials (startProcess all_up proc1 example_config) = Inr [] \<and>
   map_sum id dials (startProcess all_up proc2 example_config) = Inr [Conn proc2 proc1 0]"
  by (simp add: example_defs)

text \<open>
  C6 (amended). In \<^verbatim>\<open>mp1.go\<close>, when \<^verbatim>\<open>startProcess\<close> reaches \<^verbatim>\<open>handleUserInput\<close>, the
  process has written on every connection it dialled its own id in decimal and a
  newline, and nothing else; whatever commands, releases of delayed sends and accepts
  follow, these bytes stay the first on the connection. In the gob variant establishing
  a connection writes nothing on it: there is no handshake.
\<close>

theorem handshake_first:
  "(startProcess nw p config = Inr st0 \<and> run p config acts st0 = Inr st \<and> c \<in> set (dials st0) \<longrightarrow>
      sent st0 c = Itoa (ID p) @ [newline] \<and>
      prefix (Itoa (ID p) @ [newline]) (sent st c)) \<and>
   (startProcess_gob nw p config = Inr st0' \<longrightarrow> sent st0' c' = [])"
proof (intro conjI impI)
  assume a: "startProcess nw p config = Inr st0 \<and> run p config acts st0 = Inr st \<and> c \<in> set (dials st0)"
  then show h: "sent st0 c = Itoa (ID p) @ [newline]"
    using startProcess_sent [of nw p config st0 c] by (simp add: handshake_def)
  from a have "prefix (sent st0 c) (sent st c)"
    using run_sent [of p config acts st0 st c] by simp
  with h show "prefix (Itoa (ID p) @ [newline]) (sent st c)" by simp
next
  assume "startProcess_gob nw p config = Inr st0'"
  then show "sent st0' c' = []" by (rule startProcess_gob_sent)
qed

theorem handshake_first_witness:
  "(\<exists>st0 st. startProcess all_up proc3 example_config = Inr st0 \<and>
       run proc3 example_config [Command ''send 1 hi'' 1234, Release 0] st0 = Inr st \<and>
       Conn proc3 proc1 0 \<in> set (dials st0) \<and>
       sent st0 (Conn proc3 proc1 0) = ''3\<newline>'' \<and>
       prefix ''3\<newline>'' (sent st (Conn proc3 proc1 0)) \<and>
       sent st (Conn proc3 proc1 0) = ''3\<newline>3 hi\<newline>'') \<and>
   (\<exists>st0. startProcess_gob all_up proc2 example_config = Inr st0 \<and>
       sent st0 (Conn proc2 proc1 0) = [])"
proof -
  define st0 where "st0 = projr (startProcess all_up proc3 example_config)"
  define st where "st = projr (run proc3 example_config [Command ''send 1 hi'' 1234, Release 0] st0)"
  define st0' where "st0' = projr (startProcess_gob all_up proc2 example_config)"
  have a: "startProcess all_up proc3 example_config = Inr st0"
    by (simp add: st0_def example_defs)
  have b: "run proc3 example_config [Command ''send 1 hi'' 1234, Release 0] st0 = Inr st"
    by (simp add: st_def st0_def example_defs handleUserInput_def space_def Atoi_1
        drawDelay_def Intn_def wrap64_def unicast_send_with_delay_def Millisecond_def)
  have c: "Conn proc3 proc1 0 \<in> set (dials st0)"
    by (simp add: st0_def example_defs)
  have d: "sent st (Conn proc3 proc1 0) = ''3\<newline>3 hi\<newline>''"
    by (simp add: st_def st0_def example_defs handleUserInput_def space_def Atoi_1
        drawDelay_def Intn_def wrap64_def unicast_send_with_delay_def Millisecond_def
        release_def unicast_send_def Itoa_3 newline_def)
  have e: "startProcess_gob all_up proc2 example_config = Inr st0'"
    by (simp add: st0'_def example_defs dialRetry.simps retries_def)
  have i: "Itoa (ID proc3) @ [newline] = ''3\<newline>''"
    by (simp add: proc3_def Itoa_3 newline_def)
  have h: "startProcess all_up proc3 example_config = Inr st0 \<and>
      run proc3 example_config [Command ''send 1 hi'' 1234, Release 0] st0 = Inr st \<and>
      Conn proc3 proc1 0 \<in> set (dials st0)"
    using a b c by blast
  from handshake_first [THEN conjunct1, THEN mp, OF h]
  have "sent st0 (Conn proc3 proc1 0) = Itoa (ID proc3) @ [newline] \<and>
      prefix (Itoa (ID proc3) @ [newline]) (sent st (Conn proc3 proc1 0))" .
  then have one: "sent st0 (Conn proc3 proc1 0) = ''3\<newline>''"
    "prefix ''3\<newline>'' (sent st (Conn proc3 proc1 0))"
    by (simp_all only: i)
  from handshake_first [THEN conjunct2, THEN mp, OF e]
  have two: "sent st0' (Conn proc2 proc1 0) = []" .
  from a b c d e one two show ?thesis by blast
qed

text \<open>The claim as stated fails in the gob variant: process 2 of the example topology
  opens its two connections and has written nothing on either.\<close>

theorem no_handshake_in_gob_variant_counterexample:
  "map_sum id (\<lambda>st. map (\<lambda>c. (c, sent st c)) (dials st))
       (startProcess_gob all_up proc2 example_config)
     = Inr [(Conn proc2 proc1 0, []), (Conn proc2 proc3 1, [])]"
  by (simp add: example_defs dialRetry.simps retries_def)

section \<open>Counting pairs\<close>

lemma sum_list_indicator:
  "(\<Sum>x\<leftarrow>xs. if P x then 1 else 0) = length (filter P xs)"
  by (induction xs) simp_all

lemma length_filter_below_above:
  fixes f :: "'a \<Rightarrow> int"
  shows "f a \<notin> f ` set xs \<Longrightarrow>
    length (filter (\<lambda>y. f y < f a) xs) + length (filter (\<lambda>x. f a < f x) xs) = length xs"
  by (induction xs) auto

lemma count_lower_step:
  fixes f :: "'a \<Rightarrow> int"
  assumes "f a \<notin> f ` set xs"
  shows "(\<Sum>x\<leftarrow>a # xs. length (filter (\<lambda>y. f y < f x) (a # xs)))
           = length xs + (\<Sum>x\<leftarrow>xs. length (filter (\<lambda>y. f y < f x) xs))"
proof -
  have "(\<Sum>x\<leftarrow>xs. length (filter (\<lambda>y. f y < f x) (a # xs)))
          = (\<Sum>x\<leftarrow>xs. (if f a < f x then 1 else 0) + length (filter (\<lambda>y. f y < f x) xs))"
    by (intro arg_cong [where f = sum_list] map_cong) simp_all
  also have "\<dots> = length (filter (\<lambda>x. f a < f x) xs)
                     + (\<Sum>x\<leftarrow>xs. length (filter (\<lambda>y. f y < f x) xs))"
    by (simp add: sum_list_addf sum_list_indicator)
  finally have "(\<Sum>x\<leftarrow>a # xs. length (filter (\<lambda>y. f y < f x) (a # xs)))
      = length (filter (\<lambda>y. f y < f a) xs) + length (filter (\<lambda>x. f a < f x) xs)
        + (\<Sum>x\<leftarrow>xs. length (filter (\<lambda>y. f y < f x) xs))"
    by simp
  with length_filter_below_above [OF assms] show ?thesis by simp
qed

lemma count_lower:
  fixes f :: "'a \<Rightarrow> int"
  shows "distinct (map f xs) \<Longrightarrow>
    2 * (\<Sum>x\<leftarrow>xs. length (filter (\<lambda>y. f y < f x) xs)) = length xs * (length xs - 1)"
proof (induction xs)
  case Nil
  show ?case by simp
next
  case (Cons a xs)
  then have n: "f a \<notin> f ` set xs" and d: "distinct (map f xs)" by simp_all
  have "2 * (\<Sum>x\<leftarrow>a # xs. length (filter (\<lambda>y. f y < f x) (a # xs)))
          = 2 * length xs + length xs * (length xs - 1)"
    using count_lower_step [OF n] Cons.IH [OF d] by simp
  also have "\<dots> = length (a # xs) * (length (a # xs) - 1)"
    by (cases "length xs") simp_all
  finally show ?case .
qed

lemma count_others:
  fixes f :: "'a \<Rightarrow> int"
  assumes "distinct (map f xs)" "a \<in> set xs"
  shows "length (filter (\<lambda>y. f y \<noteq> f a) xs) = length xs - 1"
proof -
  from assms(1) have d: "distinct xs" and i: "inj_on f (set xs)"
    by (simp_all add: distinct_map)
  have "{y. f y = f a} \<inter> set xs = {a}"
    using i assms(2) by (auto dest: inj_onD)
  then have "length (filter (\<lambda>y. f y = f a) xs) = 1"
    using d by (simp add: distinct_length_filter)
  moreover have "length (filter (\<lambda>y. f y = f a) xs) + length (filter (\<lambda>y. \<not> f y = f a) xs)
      = length xs"
    by (rule sum_length_filter_compl)
  ultimately show ?thesis by simp
qed

lemma distinct_concat_map:
  "distinct xs \<Longrightarrow> (\<And>x. x \<in> set xs \<Longrightarrow> distinct (g x)) \<Longrightarrow>
   (\<And>x y. x \<in> set xs \<Longrightarrow> y \<in> set xs \<Longrightarrow> x \<noteq> y \<Longrightarrow> set (g x) \<inter> set (g y) = {}) \<Longrightarrow>
   distinct (concat (map g xs))"
proof (induction xs)
  case Nil
  show ?case by simp
next
  case (Cons a xs)
  have "distinct (concat (map g xs))"
    using Cons.prems by (intro Cons.IH) auto
  moreover have "distinct (g a)" using Cons.prems(2) by simp
  moreover have "set (g a) \<inter> set (concat (map g xs)) = {}"
  proof -
    have "set (g a) \<inter> set (g y) = {}" if "y \<in> set xs" for y
      using that Cons.prems(1) by (intro Cons.prems(3)) auto
    then show ?thesis by auto
  qed
  ultimately show ?case by simp
qed

section \<open>Loops that stop at the first abort\<close>

lemma mapE_Inr: "mapE f xs = Inr ys \<Longrightarrow> list_all2 (\<lambda>x y. f x = Inr y) xs ys"
proof (induction xs arbitrary: ys)
  case Nil
  then show ?case by simp
next
  case (Cons x xs)
  then show ?case by (auto split: sum.splits)
qed

section \<open>Reading the handshake\<close>

lemma length_formatBits: "0 < k \<Longrightarrow> 0 \<le> u \<Longrightarrow> u < 10 ^ k \<Longrightarrow> length (formatBits u) \<le> k"
proof (induction k arbitrary: u)
  case 0
  then show ?case by simp
next
  case (Suc k)
  show ?case
  proof (cases "u < 10")
    case True
    then show ?thesis by (subst formatBits.simps) simp
  next
    case False
    with Suc.prems have k: "0 < k" by (cases k) simp_all
    have "u div 10 < 10 ^ k" using Suc.prems by simp
    moreover have "0 \<le> u div 10" using Suc.prems by simp
    ultimately have "length (formatBits (u div 10)) \<le> k" using k by (intro Suc.IH)
    with False show ?thesis by (subst formatBits.simps) simp
  qed
qed

lemma length_Itoa: "is_int64 i \<Longrightarrow> length (Itoa i) \<le> 20"
proof (cases "i < 0")
  case True
  assume "is_int64 i"
  with True have "0 \<le> - i" "- i < 10 ^ 19" by (simp_all add: is_int64_def MinInt64_def)
  then have "length (formatBits (- i)) \<le> 19" by (intro length_formatBits) simp_all
  with True show ?thesis by (simp add: Itoa_def)
next
  case False
  assume "is_int64 i"
  with False have "0 \<le> i" "i < 10 ^ 19" by (simp_all add: is_int64_def MaxInt64_def)
  then have "length (formatBits i) \<le> 19" by (intro length_formatBits) simp_all
  with False show ?thesis by (simp add: Itoa_def)
qed

lemma isDigit_not_CR: "isDigit c \<Longrightarrow> c \<noteq> CHR 0x0D"
  by (auto simp: isDigit_def)

lemma last_Itoa: "last (Itoa i) \<noteq> CHR 0x0D"
proof -
  have d: "0 \<le> u \<Longrightarrow> last (formatBits u) \<noteq> CHR 0x0D" for u
  proof -
    assume "0 \<le> u"
    then have "list_all isDigit (formatBits u)" by (rule formatBits_digits)
    then have "isDigit (last (formatBits u))"
      using formatBits_nonempty [of u] by (simp add: list_all_iff)
    then show ?thesis by (rule isDigit_not_CR)
  qed
  show ?thesis
  proof (cases "i < 0")
    case True
    with d [of "- i"] formatBits_nonempty [of "- i"] show ?thesis by (simp add: Itoa_def)
  next
    case False
    with d [of i] show ?thesis by (simp add: Itoa_def)
  qed
qed

lemma Itoa_nonempty: "Itoa i \<noteq> []"
  using formatBits_nonempty by (simp add: Itoa_def)

lemma getOtherID_handshake:
  assumes "is_int64 (ID p)"
  shows "getOtherID (handshake p) = Inr (ID p)"
proof -
  have "int (length ([] @ Itoa (ID p))) + 1 \<le> MaxScanTokenSize"
    using length_Itoa [OF assms] by (simp add: MaxScanTokenSize_def)
  moreover have "newline \<notin> set (Itoa (ID p))" using Itoa_plain by simp
  ultimately have "Scan [] (Itoa (ID p) @ [newline]) = ([dropCR ([] @ Itoa (ID p))], False)"
    by (intro Scan_one_line)
  moreover have "dropCR (Itoa (ID p)) = Itoa (ID p)"
    using Itoa_nonempty last_Itoa by (intro dropCR_keep)
  ultimately have "fst (ScanLines (handshake p)) = [Itoa (ID p)]"
    by (simp add: ScanLines_def handshake_def)
  then show ?thesis using Atoi_Itoa [OF assms] by (simp add: getOtherID_def)
qed

section \<open>The mesh as a whole\<close>

lemma acceptLoop_result:
  "(\<And>c input. (c, input) \<in> set inc \<Longrightarrow> getOtherID input = Inr (ID (dialer c))) \<Longrightarrow>
   acceptLoop inc st = Inr st' \<Longrightarrow>
   dom (connections st') = dom (connections st) \<union> (\<lambda>c. ID (dialer c)) ` fst ` set inc \<and>
   dials st' = dials st"
proof (induction inc arbitrary: st)
  case Nil
  then show ?case by simp
next
  case (Cons a inc)
  obtain c input where a: "a = (c, input)" by (cases a)
  have g: "getOtherID input = Inr (ID (dialer c))" using Cons.prems(1) [of c input] a by simp
  let ?st1 = "st\<lparr>connections := (connections st)(ID (dialer c) \<mapsto> c)\<rparr>"
  from Cons.prems(2) a g have r: "acceptLoop inc ?st1 = Inr st'"
    by (simp add: accept_def)
  have "dom (connections st') = dom (connections ?st1) \<union> (\<lambda>c. ID (dialer c)) ` fst ` set inc \<and>
      dials st' = dials ?st1"
    using Cons.prems(1) by (intro Cons.IH [OF _ r]) simp
  then show ?case using a by auto
qed

lemma establish_Inr:
  assumes "establish nw config = Inr sts"
  obtains sts0 where
    "list_all2 (\<lambda>p st0. startProcess nw p config = Inr st0) (Processes config) sts0"
    "list_all2 (\<lambda>x st. (case x of (p, st0) \<Rightarrow> acceptLoop (incoming p sts0) st0) = Inr st)
       (zip (Processes config) sts0) sts"
proof (cases "mapE (\<lambda>process. startProcess nw process config) (Processes config)")
  case (Inl e)
  with assms show thesis by (simp add: establish_def)
next
  case (Inr sts0)
  with assms have b: "mapE (\<lambda>(process, st). acceptLoop (incoming process sts0) st)
      (zip (Processes config) sts0) = Inr sts"
    by (simp add: establish_def)
  show thesis
    by (rule that [OF mapE_Inr [OF Inr] mapE_Inr [OF b]])
qed

lemma target_in_number: "c \<in> set (number p n qs) \<Longrightarrow> target c \<in> set qs"
  by (induction qs arbitrary: n) auto

lemma number_hits: "q \<in> set qs \<Longrightarrow> \<exists>c\<in>set (number p n qs). target c = q"
proof -
  assume "q \<in> set qs"
  then have "q \<in> set (map target (number p n qs))" by (simp add: target_number)
  then show ?thesis by auto
qed

lemma dialLoop_entries:
  "dialLoop dial p qs st = Inr st' \<Longrightarrow> connections st' i = Some c \<Longrightarrow>
   connections st i = Some c \<or>
   (c \<in> set (dials st') \<and> dialer c = p \<and> target c \<in> set qs \<and> ID (target c) = i)"
proof (induction qs arbitrary: st)
  case Nil
  then show ?case by simp
next
  case (Cons q qs)
  show ?case
  proof (cases "ID q < ID p")
    case False
    with Cons.prems have "dialLoop dial p qs st = Inr st'" by simp
    from Cons.IH [OF this Cons.prems(2)] show ?thesis by auto
  next
    case True
    let ?c = "Conn p q (length (dials st))"
    let ?st1 = "connWrite ?c (Itoa (ID p) @ [newline])
                  (st\<lparr>connections := (connections st)(ID q \<mapsto> ?c), dials := dials st @ [?c]\<rparr>)"
    from Cons.prems(1) True have r: "dialLoop dial p qs ?st1 = Inr st'"
      by (simp add: Let_def split: if_splits)
    have c1: "connections ?st1 = (connections st)(ID q \<mapsto> ?c)" by (simp add: connWrite_def)
    have "?c \<in> set (dials ?st1)" by (simp add: connWrite_def)
    then have in': "?c \<in> set (dials st')" using dialLoop_dials [OF r] by simp
    from Cons.IH [OF r Cons.prems(2)]
    consider "connections ?st1 i = Some c"
      | "c \<in> set (dials st') \<and> dialer c = p \<and> target c \<in> set qs \<and> ID (target c) = i"
      by blast
    then show ?thesis
    proof cases
      case 1
      show ?thesis
      proof (cases "i = ID q")
        case True
        with 1 c1 have "c = ?c" by simp
        with in' True show ?thesis by simp
      next
        case False
        with 1 c1 show ?thesis by simp
      qed
    next
      case 2
      then show ?thesis by simp
    qed
  qed
qed

lemma acceptLoop_entries:
  "(\<And>c input. (c, input) \<in> set inc \<Longrightarrow> getOtherID input = Inr (ID (dialer c))) \<Longrightarrow>
   acceptLoop inc st = Inr st' \<Longrightarrow> connections st' i = Some c \<Longrightarrow>
   connections st i = Some c \<or> (c \<in> fst ` set inc \<and> ID (dialer c) = i)"
proof (induction inc arbitrary: st)
  case Nil
  then show ?case by simp
next
  case (Cons a inc)
  obtain c0 input where a: "a = (c0, input)" by (cases a)
  have g: "getOtherID input = Inr (ID (dialer c0))" using Cons.prems(1) [of c0 input] a by simp
  let ?st1 = "st\<lparr>connections := (connections st)(ID (dialer c0) \<mapsto> c0)\<rparr>"
  from Cons.prems(2) a g have r: "acceptLoop inc ?st1 = Inr st'"
    by (simp add: accept_def)
  have "connections ?st1 i = Some c \<or> (c \<in> fst ` set inc \<and> ID (dialer c) = i)"
    using Cons.prems(1) by (intro Cons.IH [OF _ r Cons.prems(3)]) simp
  then show ?case using a by (auto split: if_splits)
qed

lemma fst_incoming: "map fst (incoming p sts) = filter (\<lambda>c. target c = p) (channels sts)"
  by (induction sts) (simp_all add: incoming_def channels_def comp_def)

lemma split_by_id:
  fixes a :: int
  shows "ID ` {q \<in> S. ID q < a} \<union> ID ` {q \<in> S. a < ID q} = ID ` S - {a}"
proof -
  have "{q \<in> S. ID q < a} \<union> {q \<in> S. a < ID q} = {q \<in> S. ID q \<noteq> a}" by auto
  then have "ID ` {q \<in> S. ID q < a} \<union> ID ` {q \<in> S. a < ID q} = ID ` {q \<in> S. ID q \<noteq> a}"
    by (simp add: image_Un [symmetric])
  also have "\<dots> = ID ` S - {a}" by auto
  finally show ?thesis .
qed

lemma mesh_line:
  assumes d: "distinct (map ID (Processes config))"
    and r: "\<forall>p\<in>set (Processes config). is_int64 (ID p)"
    and e: "establish nw config = Inr sts"
  shows "channels sts
           = concat (map (\<lambda>p. number p 0 (filter (\<lambda>q. ID q < ID p) (Processes config)))
               (Processes config))"
    and "\<forall>st\<in>set sts. \<exists>p\<in>set (Processes config).
           dom (connections st) = ID ` set (Processes config) - {ID p}"
    and "list_all2 (\<lambda>p st. \<forall>i c. connections st i = Some c \<longrightarrow>
             c \<in> set (channels sts) \<and> (\<exists>q\<in>set (Processes config). ID q = i \<and> joins p q c))
           (Processes config) sts"
proof -
  let ?ps = "Processes config"
  let ?low = "\<lambda>p. filter (\<lambda>q. ID q < ID p) ?ps"
  from e obtain sts0 where
    a: "list_all2 (\<lambda>p st0. startProcess nw p config = Inr st0) ?ps sts0" and
    b: "list_all2 (\<lambda>x st. (case x of (p, st0) \<Rightarrow> acceptLoop (incoming p sts0) st0) = Inr st)
          (zip ?ps sts0) sts"
    by (rule establish_Inr)
  from a have l0: "length sts0 = length ?ps" by (simp add: list_all2_lengthD)
  from b l0 have l: "length sts = length ?ps" by (auto dest: list_all2_lengthD)
  have start: "startProcess nw (?ps ! i) config = Inr (sts0 ! i)" if "i < length ?ps" for i
    using a that by (rule list_all2_nthD)
  have acc: "acceptLoop (incoming (?ps ! i) sts0) (sts0 ! i) = Inr (sts ! i)"
    if "i < length ?ps" for i
    using list_all2_nthD [OF b, of i] that l0 by simp
  have dials0: "dials (sts0 ! i) = number (?ps ! i) 0 (?low (?ps ! i))" if "i < length ?ps" for i
    using startProcess_dials [OF start [OF that]] .
  have inc_ok: "getOtherID input = Inr (ID (dialer c))"
    if "(c, input) \<in> set (incoming p sts0)" for c input p
  proof -
    from that obtain st where st: "st \<in> set sts0" and c: "c \<in> set (dials st)"
      and i: "input = sent st c"
      by (auto simp: incoming_def)
    from st l0 obtain j where j: "j < length ?ps" "st = sts0 ! j"
      by (auto simp: in_set_conv_nth)
    from c j dials0 [OF j(1)] have dc: "dialer c = ?ps ! j" by (auto dest: dialer_number)
    from startProcess_sent [OF start [OF j(1)], of c] c j i
    have "input = handshake (?ps ! j)" by simp
    moreover have "is_int64 (ID (?ps ! j))" using r j(1) by simp
    ultimately show ?thesis using dc by (simp add: getOtherID_handshake)
  qed
  have final: "dom (connections (sts ! i))
                 = dom (connections (sts0 ! i))
                   \<union> (\<lambda>c. ID (dialer c)) ` fst ` set (incoming (?ps ! i) sts0)
               \<and> dials (sts ! i) = dials (sts0 ! i)"
    if "i < length ?ps" for i
    using inc_ok acc [OF that] by (intro acceptLoop_result) auto
  have "map dials sts = map dials sts0"
    using final l l0 by (intro nth_equalityI) simp_all
  moreover have "map dials sts0 = map (\<lambda>p. number p 0 (?low p)) ?ps"
    using dials0 l0 by (intro nth_equalityI) simp_all
  ultimately show "channels sts = concat (map (\<lambda>p. number p 0 (?low p)) ?ps)"
    by (simp add: channels_def)
  have chan0: "set (channels sts0) = (\<Union>q\<in>set ?ps. set (number q 0 (?low q)))"
    using \<open>map dials sts0 = map (\<lambda>p. number p 0 (?low p)) ?ps\<close>
    by (simp add: channels_def)
  have inc_set: "fst ` set (incoming p sts0) = {c \<in> set (channels sts0). target c = p}" for p
  proof -
    have "fst ` set (incoming p sts0) = set (map fst (incoming p sts0))" by simp
    also have "\<dots> = {c \<in> set (channels sts0). target c = p}"
      unfolding fst_incoming by simp
    finally show ?thesis .
  qed
  have higher: "(\<lambda>c. ID (dialer c)) ` fst ` set (incoming p sts0) = ID ` {q \<in> set ?ps. ID p < ID q}"
    if p: "p \<in> set ?ps" for p
  proof (intro equalityI subsetI)
    fix x
    assume "x \<in> (\<lambda>c. ID (dialer c)) ` fst ` set (incoming p sts0)"
    then obtain c where c: "c \<in> set (channels sts0)" "target c = p" "x = ID (dialer c)"
      unfolding inc_set by auto
    from c(1) chan0 obtain q where q: "q \<in> set ?ps" "c \<in> set (number q 0 (?low q))" by auto
    from q(2) have "dialer c = q" "target c \<in> set (?low q)"
      by (auto dest: dialer_number target_in_number)
    with c q show "x \<in> ID ` {q \<in> set ?ps. ID p < ID q}" by auto
  next
    fix x
    assume "x \<in> ID ` {q \<in> set ?ps. ID p < ID q}"
    then obtain q where q: "q \<in> set ?ps" "ID p < ID q" "x = ID q" by auto
    with p have "p \<in> set (?low q)" by simp
    from number_hits [OF this, of q 0] obtain c where
      c: "c \<in> set (number q 0 (?low q))" "target c = p" by auto
    from c(1) have "dialer c = q" by (rule dialer_number)
    moreover from c(1) q(1) chan0 have "c \<in> set (channels sts0)" by auto
    ultimately have "c \<in> {c \<in> set (channels sts0). target c = p}" "x = ID (dialer c)"
      using c(2) q(3) by simp_all
    then show "x \<in> (\<lambda>c. ID (dialer c)) ` fst ` set (incoming p sts0)"
      unfolding inc_set by (rule image_eqI [rotated])
  qed
  show "\<forall>st\<in>set sts. \<exists>p\<in>set ?ps. dom (connections st) = ID ` set ?ps - {ID p}"
  proof
    fix st
    assume "st \<in> set sts"
    with l obtain i where i: "i < length ?ps" "st = sts ! i" by (auto simp: in_set_conv_nth)
    let ?p = "?ps ! i"
    have p: "?p \<in> set ?ps" using i(1) by simp
    from d have inj: "inj_on ID (set ?ps)" by (simp add: distinct_map)
    have "dom (connections st)
            = ID ` {q \<in> set ?ps. ID q < ID ?p} \<union> ID ` {q \<in> set ?ps. ID ?p < ID q}"
      using final [OF i(1)] startProcess_connections [OF start [OF i(1)]] higher [OF p] i(2)
      by simp
    also have "\<dots> = ID ` set ?ps - {ID ?p}" by (rule split_by_id)
    finally show "\<exists>p\<in>set ?ps. dom (connections st) = ID ` set ?ps - {ID p}"
      using p by blast
  qed
  have same: "channels sts = channels sts0"
    using \<open>map dials sts = map dials sts0\<close> by (simp add: channels_def)
  have entry: "c \<in> set (channels sts) \<and> (\<exists>q\<in>set ?ps. ID q = i \<and> joins (?ps ! k) q c)"
    if k: "k < length ?ps" and c: "connections (sts ! k) i = Some c" for k i c
  proof -
    let ?p = "?ps ! k"
    from start [OF k]
    have dl: "dialLoop (dial_ok nw ?p) ?p ?ps (initial :: char state) = Inr (sts0 ! k)"
      by (simp add: startProcess_def split: if_splits)
    have "connections (sts0 ! k) i = Some c
        \<or> (c \<in> fst ` set (incoming ?p sts0) \<and> ID (dialer c) = i)"
      using inc_ok acc [OF k] c by (rule acceptLoop_entries)
    then consider "connections (sts0 ! k) i = Some c"
      | "c \<in> fst ` set (incoming ?p sts0) \<and> ID (dialer c) = i"
      by blast
    then show ?thesis
    proof cases
      case 1
      from dialLoop_entries [OF dl 1]
      have f: "c \<in> set (dials (sts0 ! k))" "dialer c = ?p" "target c \<in> set ?ps" "ID (target c) = i"
        by (simp_all add: initial_def)
      from f(1) k l0 have "c \<in> set (channels sts0)"
        by (auto simp: channels_def intro!: bexI [of _ "sts0 ! k"])
      moreover have "joins ?p (target c) c" using f(2) by (simp add: joins_def)
      ultimately show ?thesis using f(3,4) same by auto
    next
      case 2
      then have f: "c \<in> set (channels sts0)" "target c = ?p" "ID (dialer c) = i"
        unfolding inc_set by simp_all
      from f(1) chan0 obtain q where q: "q \<in> set ?ps" "c \<in> set (number q 0 (?low q))" by auto
      from q(2) have "dialer c = q" by (rule dialer_number)
      moreover then have "joins ?p q c" using f(2) by (simp add: joins_def)
      ultimately show ?thesis using f(1,3) q(1) same by auto
    qed
  qed
  show "list_all2 (\<lambda>p st. \<forall>i c. connections st i = Some c \<longrightarrow>
             c \<in> set (channels sts) \<and> (\<exists>q\<in>set ?ps. ID q = i \<and> joins p q c)) ?ps sts"
    using l entry by (auto simp: list_all2_conv_all_nth)
qed

lemma mesh_gob:
  assumes e: "establish_gob nw config = Inr sts"
  shows "channels sts
           = concat (map (\<lambda>p. number p 0 (filter (\<lambda>q. ID q \<noteq> ID p) (Processes config)))
               (Processes config))"
    and "\<forall>st\<in>set sts. \<exists>p\<in>set (Processes config).
           dom (connections st) = ID ` set (Processes config) - {ID p}"
proof -
  let ?ps = "Processes config"
  let ?oth = "\<lambda>p. filter (\<lambda>q. ID q \<noteq> ID p) ?ps"
  from e have a: "list_all2 (\<lambda>p st. startProcess_gob nw p config = Inr st) ?ps sts"
    unfolding establish_gob_def by (rule mapE_Inr)
  then have l: "length sts = length ?ps" by (simp add: list_all2_lengthD)
  have start: "startProcess_gob nw (?ps ! i) config = Inr (sts ! i)" if "i < length ?ps" for i
    using a that by (rule list_all2_nthD)
  have "map dials sts = map (\<lambda>p. number p 0 (?oth p)) ?ps"
    using startProcess_gob_dials [OF start] l by (intro nth_equalityI) simp_all
  then show "channels sts = concat (map (\<lambda>p. number p 0 (?oth p)) ?ps)"
    by (simp add: channels_def)
  show "\<forall>st\<in>set sts. \<exists>p\<in>set ?ps. dom (connections st) = ID ` set ?ps - {ID p}"
  proof
    fix st
    assume "st \<in> set sts"
    with l obtain i where i: "i < length ?ps" "st = sts ! i" by (auto simp: in_set_conv_nth)
    have "dom (connections st) = ID ` {q \<in> set ?ps. ID q \<noteq> ID (?ps ! i)}"
      using startProcess_gob_connections [OF start [OF i(1)]] i(2) by simp
    also have "\<dots> = ID ` set ?ps - {ID (?ps ! i)}" by auto
    finally show "\<exists>p\<in>set ?ps. dom (connections st) = ID ` set ?ps - {ID p}"
      using i(1) by (intro bexI [of _ "?ps ! i"]) simp_all
  qed
qed

lemma card_peers:
  assumes "distinct (map ID ps)" "p \<in> set ps"
  shows "card (ID ` set ps - {ID p}) = length ps - 1"
proof -
  have "card (ID ` set ps) = length ps"
    using distinct_card [OF assms(1)] by simp
  moreover have "ID p \<in> ID ` set ps" using assms(2) by simp
  ultimately show ?thesis by simp
qed

lemma distinct_all_channels:
  assumes "distinct (map ID ps)"
  shows "distinct (concat (map (\<lambda>p. number p 0 (g p)) ps))"
proof (rule distinct_concat_map)
  show "distinct ps" using assms by (simp add: distinct_map)
  show "distinct (number p 0 (g p))" for p by (rule distinct_number)
  show "set (number p 0 (g p)) \<inter> set (number q 0 (g q)) = {}" if "p \<noteq> q" for p q
    using that by (auto dest!: dialer_number)
qed

lemma length_filter_number:
  "length (filter (\<lambda>c. P (target c)) (number r n qs)) = length (filter P qs)"
  by (induction qs arbitrary: n) simp_all

lemma filter_joins_number:
  "filter (joins p q) (number r n qs)
     = filter (\<lambda>c. (\<lambda>x. (r = p \<and> x = q) \<or> (r = q \<and> x = p)) (target c)) (number r n qs)"
  by (rule filter_cong) (auto simp: joins_def dest: dialer_number)

lemma length_joins_number:
  "length (filter (joins p q) (number r n qs))
     = length (filter (\<lambda>x. (r = p \<and> x = q) \<or> (r = q \<and> x = p)) qs)"
  unfolding filter_joins_number by (rule length_filter_number)

lemma length_filter_concat_map:
  "length (filter P (concat (map g xs))) = (\<Sum>x\<leftarrow>xs. length (filter P (g x)))"
  by (induction xs) simp_all

lemma sum_list_two:
  fixes h :: "'a \<Rightarrow> nat"
  assumes "distinct xs" "p \<in> set xs" "q \<in> set xs" "p \<noteq> q"
    and "\<And>r. r \<in> set xs \<Longrightarrow> r \<noteq> p \<Longrightarrow> r \<noteq> q \<Longrightarrow> h r = 0"
  shows "(\<Sum>x\<leftarrow>xs. h x) = h p + h q"
proof -
  have "(\<Sum>x\<leftarrow>xs. h x) = (\<Sum>x\<in>set xs. h x)"
    using assms(1) by (simp add: sum_list_distinct_conv_sum_set)
  also have "\<dots> = (\<Sum>x\<in>{p, q}. h x)"
    using assms(2,3,5) by (intro sum.mono_neutral_right) auto
  also have "\<dots> = h p + h q" using assms(4) by simp
  finally show ?thesis .
qed

lemma length_filter_eq_none: "a \<notin> set xs \<Longrightarrow> length (filter (\<lambda>x. x = a) xs) = 0"
  by (induction xs) auto

lemma length_filter_eq_one: "distinct xs \<Longrightarrow> a \<in> set xs \<Longrightarrow> length (filter (\<lambda>x. x = a) xs) = 1"
  by (induction xs) (auto simp: filter_empty_conv)

lemma length_filter_eq_filter:
  assumes "distinct xs" "a \<in> set xs"
  shows "length (filter (\<lambda>x. x = a) (filter Q xs)) = (if Q a then 1 else 0)"
proof (cases "Q a")
  case True
  with assms have "distinct (filter Q xs)" "a \<in> set (filter Q xs)" by simp_all
  then have "length (filter (\<lambda>x. x = a) (filter Q xs)) = 1" by (rule length_filter_eq_one)
  with True show ?thesis by simp
next
  case False
  then have "a \<notin> set (filter Q xs)" by simp
  then have "length (filter (\<lambda>x. x = a) (filter Q xs)) = 0" by (rule length_filter_eq_none)
  with False show ?thesis by simp
qed

lemma pair_count:
  assumes d: "distinct ps" and p: "p \<in> set ps" and q: "q \<in> set ps" and n: "p \<noteq> q"
  shows "length (filter (joins p q) (concat (map (\<lambda>r. number r 0 (filter (P r) ps)) ps)))
           = (if P p q then 1 else 0) + (if P q p then 1 else 0)"
proof -
  let ?h = "\<lambda>r. length (filter (\<lambda>x. (r = p \<and> x = q) \<or> (r = q \<and> x = p)) (filter (P r) ps))"
  have "length (filter (joins p q) (concat (map (\<lambda>r. number r 0 (filter (P r) ps)) ps)))
          = (\<Sum>r\<leftarrow>ps. ?h r)"
    by (simp add: length_filter_concat_map length_joins_number)
  also have "\<dots> = ?h p + ?h q"
    using d p q n by (intro sum_list_two) simp_all
  also have "?h p = length (filter (\<lambda>x. x = q) (filter (P p) ps))"
    using n by (intro arg_cong [where f = length] filter_cong) auto
  also have "\<dots> = (if P p q then 1 else 0)"
    using d q by (rule length_filter_eq_filter)
  also have "?h q = length (filter (\<lambda>x. x = p) (filter (P q) ps))"
    using n by (intro arg_cong [where f = length] filter_cong) auto
  also have "\<dots> = (if P q p then 1 else 0)"
    using d p by (rule length_filter_eq_filter)
  finally show ?thesis .
qed

lemma example_establish:
  "\<exists>sts. establish all_up example_config = Inr sts \<and>
         connections (sts ! 0) 2 = Some (Conn proc2 proc1 0)"
  by (simp add: establish_def example_defs incoming_def accept_def getOtherID_def
      ScanLines_def newline_def MaxScanTokenSize_def dropCR_def Itoa_2 Itoa_3 Atoi_2 Atoi_3)

lemma example_establish_gob: "\<exists>sts. establish_gob all_up example_config = Inr sts"
  by (simp add: establish_gob_def example_defs dialRetry.simps retries_def)

text \<open>
  C2 (amended). For a topology of \<open>K\<close> processes with distinct ids, once mesh
  establishment has completed: in \<^verbatim>\<open>mp1.go\<close> exactly \<open>K * (K - 1) / 2\<close> distinct channels
  exist, exactly one between every two processes, every local map has exactly \<open>K - 1\<close>
  entries, and each entry holds the channel between its owner and the peer of that id,
  so that one channel carries both directions. In the gob variant every process dials
  every other: \<open>K * (K - 1)\<close> distinct channels exist, two between every two processes,
  and every local map has exactly \<open>K - 1\<close> entries.
\<close>

theorem mesh_channel_count:
  assumes "distinct (map ID (Processes config))"
    and "\<forall>p\<in>set (Processes config). is_int64 (ID p)"
  shows "(establish nw config = Inr sts \<longrightarrow>
            length (channels sts)
              = length (Processes config) * (length (Processes config) - 1) div 2 \<and>
            distinct (channels sts) \<and>
            (\<forall>p\<in>set (Processes config). \<forall>q\<in>set (Processes config).
               p \<noteq> q \<longrightarrow> length (filter (joins p q) (channels sts)) = 1) \<and>
            (\<forall>st\<in>set sts. card (dom (connections st)) = length (Processes config) - 1) \<and>
            list_all2 (\<lambda>p st. \<forall>i c. connections st i = Some c \<longrightarrow>
                c \<in> set (channels sts) \<and> (\<exists>q\<in>set (Processes config). ID q = i \<and> joins p q c))
              (Processes config) sts) \<and>
         (establish_gob nw config = Inr sts' \<longrightarrow>
            length (channels sts') = length (Processes config) * (length (Processes config) - 1) \<and>
            distinct (channels sts') \<and>
            (\<forall>p\<in>set (Processes config). \<forall>q\<in>set (Processes config).
               p \<noteq> q \<longrightarrow> length (filter (joins p q) (channels sts')) = 2) \<and>
            (\<forall>st\<in>set sts'. card (dom (connections st)) = length (Processes config) - 1))"
proof (intro conjI impI)
  let ?ps = "Processes config"
  let ?low = "\<lambda>p. filter (\<lambda>q. ID q < ID p) ?ps"
  assume e: "establish nw config = Inr sts"
  note m = mesh_line [OF assms e]
  from assms(1) have dps: "distinct ?ps" and inj: "inj_on ID (set ?ps)"
    by (simp_all add: distinct_map)
  have "length (channels sts) = (\<Sum>p\<leftarrow>?ps. length (?low p))"
    by (simp add: m(1) length_concat comp_def length_number)
  moreover have "2 * (\<Sum>p\<leftarrow>?ps. length (?low p)) = length ?ps * (length ?ps - 1)"
    using assms(1) by (rule count_lower)
  ultimately show "length (channels sts) = length ?ps * (length ?ps - 1) div 2"
    by simp
  show "distinct (channels sts)"
    unfolding m(1) using assms(1) by (rule distinct_all_channels)
  show "\<forall>p\<in>set ?ps. \<forall>q\<in>set ?ps. p \<noteq> q \<longrightarrow> length (filter (joins p q) (channels sts)) = 1"
  proof (intro ballI impI)
    fix p q
    assume pq: "p \<in> set ?ps" "q \<in> set ?ps" "p \<noteq> q"
    with inj have "ID p \<noteq> ID q" by (auto dest: inj_onD)
    then have "(if ID q < ID p then 1 else 0) + (if ID p < ID q then 1 else 0) = (1::nat)"
      by auto
    then show "length (filter (joins p q) (channels sts)) = 1"
      unfolding m(1) using pair_count [OF dps pq, of "\<lambda>p q. ID q < ID p"] by simp
  qed
  show "\<forall>st\<in>set sts. card (dom (connections st)) = length ?ps - 1"
    using m(2) card_peers [OF assms(1)] by fastforce
  show "list_all2 (\<lambda>p st. \<forall>i c. connections st i = Some c \<longrightarrow>
          c \<in> set (channels sts) \<and> (\<exists>q\<in>set ?ps. ID q = i \<and> joins p q c)) ?ps sts"
    by (rule m(3))
next
  let ?ps = "Processes config"
  let ?oth = "\<lambda>p. filter (\<lambda>q. ID q \<noteq> ID p) ?ps"
  assume e: "establish_gob nw config = Inr sts'"
  note m = mesh_gob [OF e]
  from assms(1) have dps: "distinct ?ps" and inj: "inj_on ID (set ?ps)"
    by (simp_all add: distinct_map)
  have "length (channels sts') = (\<Sum>p\<leftarrow>?ps. length (?oth p))"
    by (simp add: m(1) length_concat comp_def length_number)
  also have "\<dots> = (\<Sum>p\<leftarrow>?ps. length ?ps - 1)"
    using count_others [OF assms(1)]
    by (intro arg_cong [where f = sum_list] map_cong) simp_all
  also have "\<dots> = length ?ps * (length ?ps - 1)"
    by (simp add: sum_list_triv)
  finally show "length (channels sts') = length ?ps * (length ?ps - 1)" .
  show "distinct (channels sts')"
    unfolding m(1) using assms(1) by (rule distinct_all_channels)
  show "\<forall>p\<in>set ?ps. \<forall>q\<in>set ?ps. p \<noteq> q \<longrightarrow> length (filter (joins p q) (channels sts')) = 2"
  proof (intro ballI impI)
    fix p q
    assume pq: "p \<in> set ?ps" "q \<in> set ?ps" "p \<noteq> q"
    with inj have "ID p \<noteq> ID q" by (auto dest: inj_onD)
    then show "length (filter (joins p q) (channels sts')) = 2"
      unfolding m(1) using pair_count [OF dps pq, of "\<lambda>p q. ID q \<noteq> ID p"] by simp
  qed
  show "\<forall>st\<in>set sts'. card (dom (connections st)) = length ?ps - 1"
    using m(2) card_peers [OF assms(1)] by fastforce
qed

theorem mesh_channel_count_witness:
  "(\<exists>sts. establish all_up example_config = Inr sts \<and>
          length (channels sts) = 3 \<and> distinct (channels sts) \<and>
          length (filter (joins proc1 proc3) (channels sts)) = 1 \<and>
          (\<forall>st\<in>set sts. card (dom (connections st)) = 2) \<and>
          connections (sts ! 0) 2 = Some (Conn proc2 proc1 0) \<and>
          Conn proc2 proc1 0 \<in> set (channels sts) \<and>
          (\<exists>q\<in>set (Processes example_config). ID q = 2 \<and> joins proc1 q (Conn proc2 proc1 0))) \<and>
   (\<exists>sts. establish_gob all_up example_config = Inr sts \<and>
          length (channels sts) = 6 \<and> distinct (channels sts) \<and>
          length (filter (joins proc1 proc3) (channels sts)) = 2 \<and>
          (\<forall>st\<in>set sts. card (dom (connections st)) = 2))"
proof -
  have d: "distinct (map ID (Processes example_config))"
    by (simp add: example_config_def proc1_def proc2_def proc3_def)
  have r: "\<forall>p\<in>set (Processes example_config). is_int64 (ID p)"
    by (simp add: example_config_def proc1_def proc2_def proc3_def is_int64_def
        MinInt64_def MaxInt64_def)
  have k: "length (Processes example_config) = 3" by (simp add: example_config_def)
  have m: "proc1 \<in> set (Processes example_config)" "proc3 \<in> set (Processes example_config)"
    "proc1 \<noteq> proc3"
    by (simp_all add: example_config_def proc1_def proc3_def)
  obtain sts where a: "establish all_up example_config = Inr sts"
    and a2: "connections (sts ! 0) 2 = Some (Conn proc2 proc1 0)"
    using example_establish by blast
  obtain sts' where b: "establish_gob all_up example_config = Inr sts'"
    using example_establish_gob by blast
  note t = mesh_channel_count [OF d r, of all_up sts sts']
  from t a m have one: "length (channels sts) = 3 \<and> distinct (channels sts) \<and>
      length (filter (joins proc1 proc3) (channels sts)) = 1 \<and>
      (\<forall>st\<in>set sts. card (dom (connections st)) = 2)"
    by (simp add: k)
  from t b m have two: "length (channels sts') = 6 \<and> distinct (channels sts') \<and>
      length (filter (joins proc1 proc3) (channels sts')) = 2 \<and>
      (\<forall>st\<in>set sts'. card (dom (connections st)) = 2)"
    by (simp add: k)
  from t a have "list_all2 (\<lambda>p st. \<forall>i c. connections st i = Some c \<longrightarrow>
      c \<in> set (channels sts) \<and>
      (\<exists>q\<in>set (Processes example_config). ID q = i \<and> joins p q c))
    (Processes example_config) sts"
    by simp
  from list_all2_nthD [OF this, of 0] a2
  have three: "Conn proc2 proc1 0 \<in> set (channels sts) \<and>
      (\<exists>q\<in>set (Processes example_config). ID q = 2 \<and> joins proc1 q (Conn proc2 proc1 0))"
    by (simp add: example_config_def)
  from a a2 b one two three show ?thesis by blast
qed

text \<open>The claim as stated fails in the gob variant: the three processes of the example
  topology open six channels, not three.\<close>

theorem gob_variant_channel_count_counterexample:
  "map_sum id (\<lambda>sts. length (channels sts)) (establish_gob all_up example_config) = Inr 6 \<and>
   length (Processes example_config) * (length (Processes example_config) - 1) div 2 = 3"
  by (simp add: establish_gob_def example_defs dialRetry.simps retries_def channels_def)

end
